theory Spec2Isabelle
  imports Main
begin

section \<open>Characters and the line store\<close>

text \<open>
  The source is \<^verbatim>\<open>fix_eslint_errors.py\<close>. A Python \<^verbatim>\<open>str\<close> is modelled as a
  \<^typ>\<open>string\<close>: a list of characters, one \<^typ>\<open>char\<close> per code point, so the
  embedding covers the documents whose code points are below 256. The two character
  classes that the patterns of the source use are those of the \<^verbatim>\<open>re\<close> module on
  \<^verbatim>\<open>str\<close> patterns (Unicode matching), restricted to that range:
  \<^verbatim>\<open>\s\<close> is \<^verbatim>\<open>str.isspace\<close> and a word character (for \<^verbatim>\<open>\b\<close>) is
  \<^verbatim>\<open>str.isalnum\<close> or the underscore.
\<close>

definition bs :: char where
  "bs = CHR 0x5C"

definition nl :: char where
  "nl = CHR 0x0A"

definition is_space :: "char \<Rightarrow> bool" where
  "is_space c =
     (let n = (of_char c :: nat)
      in (9 \<le> n \<and> n \<le> 13) \<or> (28 \<le> n \<and> n \<le> 32) \<or> n = 133 \<or> n = 160)"

definition is_word :: "char \<Rightarrow> bool" where
  "is_word c =
     (let n = (of_char c :: nat)
      in (48 \<le> n \<and> n \<le> 57) \<or> (65 \<le> n \<and> n \<le> 90) \<or> n = 95 \<or> (97 \<le> n \<and> n \<le> 122)
         \<or> n = 170 \<or> n = 178 \<or> n = 179 \<or> n = 181 \<or> n = 185 \<or> n = 186
         \<or> (188 \<le> n \<and> n \<le> 190) \<or> (192 \<le> n \<and> n \<le> 214)
         \<or> (216 \<le> n \<and> n \<le> 246) \<or> 248 \<le> n)"

text \<open>
  \<^verbatim>\<open>content.split('\n')\<close>: the pieces between the newlines; the empty string gives
  one empty line, and a trailing newline gives a last empty line. The result is never
  empty, so the first branch of the case below is never taken.
\<close>

fun split_nl :: "string \<Rightarrow> string list" where
  "split_nl [] = [[]]"
| "split_nl (c # cs) =
     (case split_nl cs of
        [] \<Rightarrow> []
      | l # ls \<Rightarrow> (if c = nl then [] # l # ls else (c # l) # ls))"

text \<open>\<^verbatim>\<open>'\n'.join(lines)\<close>.\<close>

fun join_nl :: "string list \<Rightarrow> string" where
  "join_nl [] = []"
| "join_nl [l] = l"
| "join_nl (l # m # ls) = l @ nl # join_nl (m # ls)"

section \<open>The fragment of Python's regular expressions that the rules use\<close>

text \<open>
  The rules build their patterns as text (the detail is pasted into an
  \<^verbatim>\<open>rf'...'\<close> string) and hand them to \<^verbatim>\<open>re.search\<close>, \<^verbatim>\<open>re.match\<close> and
  \<^verbatim>\<open>re.sub\<close>. The model therefore parses pattern text, as \<^verbatim>\<open>re\<close> does, and runs a
  backtracking matcher with the priorities of \<^verbatim>\<open>re\<close> (greedy repeats, leftmost match).

  The fragment: literal characters, the escapes \<^verbatim>\<open>\b\<close> and \<^verbatim>\<open>\s\<close>, an escaped
  character that is neither an ASCII letter nor a digit (a literal), and the greedy
  repeats \<^verbatim>\<open>*\<close>, \<^verbatim>\<open>+\<close>, \<^verbatim>\<open>?\<close> of a one-character item. A pattern that
  \<^verbatim>\<open>re\<close> rejects inside the fragment is \<open>ReError\<close> (Python raises
  \<^verbatim>\<open>re.error\<close>); pattern text that uses syntax beyond the fragment is
  \<open>OutsideFragment\<close>, about which the model says nothing. The fixed patterns of the
  source lie inside the fragment, and so does every pattern built from a detail without
  special characters and backslash (\<open>no_metachar\<close> below); the general theorems about
  unused_var and unused_import are stated for such details and conclude that the rule
  returns, so none of them rests on an \<open>OutsideFragment\<close> answer.
\<close>

datatype failure = ReError | OutsideFragment

datatype atom = Lit char | Space_Class

datatype node = Boundary | One atom | Opt atom | Star atom | Plus atom

fun atom_ok :: "atom \<Rightarrow> char \<Rightarrow> bool" where
  "atom_ok (Lit a) c = (c = a)"
| "atom_ok Space_Class c = is_space c"

text \<open>
  An escape: \<^verbatim>\<open>\b\<close> is the word boundary, \<^verbatim>\<open>\s\<close> the whitespace class; any other
  ASCII letter or digit after the backslash is beyond the fragment; every other character
  after a backslash stands for itself.
\<close>

definition ascii_alnum :: "char \<Rightarrow> bool" where
  "ascii_alnum c =
     (let n = (of_char c :: nat)
      in (48 \<le> n \<and> n \<le> 57) \<or> (65 \<le> n \<and> n \<le> 90) \<or> (97 \<le> n \<and> n \<le> 122))"

definition escape :: "char \<Rightarrow> failure + node" where
  "escape e =
     (if e = CHR ''b'' then Inr Boundary
      else if e = CHR ''s'' then Inr (One Space_Class)
      else if ascii_alnum e then Inl OutsideFragment
      else Inr (One (Lit e)))"

definition repeat_of :: "char \<Rightarrow> atom \<Rightarrow> node" where
  "repeat_of c a = (if c = CHR ''*'' then Star a else if c = CHR ''+'' then Plus a else Opt a)"

text \<open>
  The parser keeps the items read so far, last one first. A repeat character applies to
  the last item: with no item, or after \<^verbatim>\<open>\b\<close>, \<^verbatim>\<open>re\<close> raises "nothing to repeat";
  after a repeat it raises "multiple repeat". A \<^verbatim>\<open>?\<close> or \<^verbatim>\<open>+\<close> right after a repeat
  character (a lazy or possessive repeat) is beyond the fragment, and so are the other
  special characters \<^verbatim>\<open>. ^ $ | ( ) [ {\<close>. A backslash that ends the pattern is an error.
\<close>

fun parse_re :: "string \<Rightarrow> node list \<Rightarrow> failure + node list" where
  "parse_re [] acc = Inr (rev acc)"
| "parse_re [c] acc =
     (if c = bs then Inl ReError
      else if c \<in> set ''*+?'' then
        (case acc of
           One a # acc' \<Rightarrow> Inr (rev (repeat_of c a # acc'))
         | _ \<Rightarrow> Inl ReError)
      else if c \<in> set ''.^$|()[{'' then Inl OutsideFragment
      else Inr (rev (One (Lit c) # acc)))"
| "parse_re (c # d # cs) acc =
     (if c = bs then
        (case escape d of
           Inl f \<Rightarrow> Inl f
         | Inr n \<Rightarrow> parse_re cs (n # acc))
      else if c \<in> set ''*+?'' then
        (case acc of
           One a # acc' \<Rightarrow>
             (if d \<in> set ''?+'' then Inl OutsideFragment
              else parse_re (d # cs) (repeat_of c a # acc'))
         | _ \<Rightarrow> Inl ReError)
      else if c \<in> set ''.^$|()[{'' then Inl OutsideFragment
      else parse_re (d # cs) (One (Lit c) # acc))"

definition compile :: "string \<Rightarrow> failure + node list" where
  "compile pattern = parse_re pattern []"

text \<open>
  A replacement template without a backslash is literal text. One with a backslash
  (group references, escapes) is beyond the fragment.
\<close>

definition template :: "string \<Rightarrow> failure + string" where
  "template repl = (if bs \<in> set repl then Inl OutsideFragment else Inr repl)"

text \<open>
  \<^verbatim>\<open>\b\<close> holds where exactly one of the previous and the next character is a word
  character (the ends of the text count as non-word).
\<close>

fun at_boundary :: "char option \<Rightarrow> string \<Rightarrow> bool" where
  "at_boundary prev s =
     ((case prev of None \<Rightarrow> False | Some p \<Rightarrow> is_word p)
      \<noteq> (case s of [] \<Rightarrow> False | c # _ \<Rightarrow> is_word c))"

text \<open>
  The matcher, at one position: \<open>prev\<close> is the character before the position, \<open>s\<close> the
  text from the position on, \<open>k\<close> the number of characters matched so far. It returns the
  length of the match. A repeat takes as many characters as it can and gives them back one
  by one when the rest of the pattern fails. With \<open>adv\<close> set, an empty match is refused
  and the matcher backtracks (the \<^verbatim>\<open>must_advance\<close> flag of \<^verbatim>\<open>re.sub\<close>).
\<close>

fun match_nodes :: "node list \<Rightarrow> bool \<Rightarrow> nat \<Rightarrow> char option \<Rightarrow> string \<Rightarrow> nat option" where
  "match_nodes [] adv k prev s = (if adv \<and> k = 0 then None else Some k)"
| "match_nodes (Boundary # ns) adv k prev s =
     (if at_boundary prev s then match_nodes ns adv k prev s else None)"
| "match_nodes (One a # ns) adv k prev [] = None"
| "match_nodes (One a # ns) adv k prev (c # cs) =
     (if atom_ok a c then match_nodes ns adv (Suc k) (Some c) cs else None)"
| "match_nodes (Opt a # ns) adv k prev [] = match_nodes ns adv k prev []"
| "match_nodes (Opt a # ns) adv k prev (c # cs) =
     (if atom_ok a c then
        (case match_nodes ns adv (Suc k) (Some c) cs of
           Some r \<Rightarrow> Some r
         | None \<Rightarrow> match_nodes ns adv k prev (c # cs))
      else match_nodes ns adv k prev (c # cs))"
| "match_nodes (Star a # ns) adv k prev [] = match_nodes ns adv k prev []"
| "match_nodes (Star a # ns) adv k prev (c # cs) =
     (if atom_ok a c then
        (case match_nodes (Star a # ns) adv (Suc k) (Some c) cs of
           Some r \<Rightarrow> Some r
         | None \<Rightarrow> match_nodes ns adv k prev (c # cs))
      else match_nodes ns adv k prev (c # cs))"
| "match_nodes (Plus a # ns) adv k prev [] = None"
| "match_nodes (Plus a # ns) adv k prev (c # cs) =
     (if atom_ok a c then match_nodes (Star a # ns) adv (Suc k) (Some c) cs else None)"

text \<open>
  The search: the first position, from the current one on, where the pattern matches;
  the result is the distance to that position and the length of the match. Only at the
  first position tried can an empty match be refused.
\<close>

fun search_from :: "node list \<Rightarrow> bool \<Rightarrow> char option \<Rightarrow> string \<Rightarrow> (nat \<times> nat) option" where
  "search_from ns adv prev [] =
     (case match_nodes ns adv 0 prev [] of Some len \<Rightarrow> Some (0, len) | None \<Rightarrow> None)"
| "search_from ns adv prev (c # cs) =
     (case match_nodes ns adv 0 prev (c # cs) of
        Some len \<Rightarrow> Some (0, len)
      | None \<Rightarrow>
          (case search_from ns False (Some c) cs of
             Some (b, len) \<Rightarrow> Some (Suc b, len)
           | None \<Rightarrow> None))"

text \<open>The character before the position reached after \<open>xs\<close> has been passed.\<close>

fun last_seen :: "char option \<Rightarrow> string \<Rightarrow> char option" where
  "last_seen prev [] = prev"
| "last_seen prev (x # xs) = Some (last (x # xs))"

lemma match_nodes_bounds:
  "match_nodes ns adv k prev s = Some r \<Longrightarrow> k \<le> r \<and> r \<le> k + length s \<and> (adv \<longrightarrow> 0 < r)"
  by (induction ns adv k prev s arbitrary: r rule: match_nodes.induct)
     (fastforce split: if_splits option.splits)+

lemma search_from_bounds:
  "search_from ns adv prev s = Some (b, len) \<Longrightarrow> b + len \<le> length s \<and> (adv \<longrightarrow> 0 < b + len)"
proof (induction s arbitrary: adv prev b len)
  case Nil
  then show ?case
    by (auto split: option.splits dest: match_nodes_bounds)
next
  case (Cons c cs)
  then show ?case
    by (fastforce split: option.splits dest: match_nodes_bounds)
qed

text \<open>
  The loop of \<^verbatim>\<open>re.sub\<close>: \<open>count\<close> is its \<^verbatim>\<open>count\<close> argument (0 for no limit),
  \<open>n\<close> the number of replacements made. Each round searches from the end of the last
  match, copies the text before the match, then the replacement. After an empty match the
  next one must advance, so the loop ends (Python 3.7 and later).
\<close>

function sub_loop ::
  "node list \<Rightarrow> string \<Rightarrow> nat \<Rightarrow> nat \<Rightarrow> bool \<Rightarrow> char option \<Rightarrow> string \<Rightarrow> string" where
  "sub_loop ns repl count n adv prev s =
     (if count \<noteq> 0 \<and> \<not> n < count then s
      else
        (case search_from ns adv prev s of
           None \<Rightarrow> s
         | Some (b, len) \<Rightarrow>
             take b s @ repl @
             sub_loop ns repl count (Suc n) (len = 0)
               (last_seen prev (take (b + len) s)) (drop (b + len) s)))"
  by pat_completeness auto
termination
proof (relation "measure (\<lambda>(ns, repl, count, n, adv, prev, s). 2 * length s + (if adv then 0 else 1))")
  show "wf (measure (\<lambda>(ns, repl, count, n, adv, prev, s). 2 * length s + (if adv then 0 else 1)))"
    by simp
next
  fix ns :: "node list" and repl :: string and count n :: nat and adv :: bool
    and prev :: "char option" and s :: string and x2 :: "nat \<times> nat" and b len :: nat
  assume "search_from ns adv prev s = Some x2" and "(b, len) = x2"
  then have "search_from ns adv prev s = Some (b, len)" by simp
  from search_from_bounds [OF this]
  show "((ns, repl, count, Suc n, len = 0, last_seen prev (take (b + len) s), drop (b + len) s),
         (ns, repl, count, n, adv, prev, s))
        \<in> measure (\<lambda>(ns, repl, count, n, adv, prev, s). 2 * length s + (if adv then 0 else 1))"
    by auto
qed

declare sub_loop.simps [simp del]

text \<open>
  The three entry points of \<^verbatim>\<open>re\<close> that the source calls. Compiling the pattern comes
  first and may raise. \<^verbatim>\<open>re.search\<close> and \<^verbatim>\<open>re.match\<close> are only tested for truth in the
  source, so they return whether there is a match; \<^verbatim>\<open>re.match\<close> tries the start of the
  text only.
\<close>

definition re_search :: "string \<Rightarrow> string \<Rightarrow> failure + bool" where
  "re_search pattern s =
     (case compile pattern of
        Inl e \<Rightarrow> Inl e
      | Inr ns \<Rightarrow> Inr (search_from ns False None s \<noteq> None))"

definition re_match :: "string \<Rightarrow> string \<Rightarrow> failure + bool" where
  "re_match pattern s =
     (case compile pattern of
        Inl e \<Rightarrow> Inl e
      | Inr ns \<Rightarrow> Inr (match_nodes ns False 0 None s \<noteq> None))"

definition re_sub :: "string \<Rightarrow> string \<Rightarrow> string \<Rightarrow> nat \<Rightarrow> failure + string" where
  "re_sub pattern repl s count =
     (case compile pattern of
        Inl e \<Rightarrow> Inl e
      | Inr ns \<Rightarrow>
          (case template repl of
             Inl e \<Rightarrow> Inl e
           | Inr r \<Rightarrow> Inr (sub_loop ns r count 0 False None s)))"

section \<open>The five rules\<close>

text \<open>
  The loop \<^verbatim>\<open>for pattern, replacement in patterns: if re.search(...): lines[i] = re.sub(...); break\<close>
  of \<^verbatim>\<open>fix_unused_request_param\<close> (which calls \<^verbatim>\<open>re.sub\<close> without a count, here 0)
  and of \<^verbatim>\<open>fix_unused_var\<close> (which passes \<^verbatim>\<open>count=1\<close>). The result is the new text
  of the line, or \<open>None\<close> when no pattern matched and the line is not assigned.
\<close>

fun first_match :: "(string \<times> string) list \<Rightarrow> nat \<Rightarrow> string \<Rightarrow> failure + string option" where
  "first_match [] count line = Inr None"
| "first_match ((pattern, replacement) # ps) count line =
     (case re_search pattern line of
        Inl e \<Rightarrow> Inl e
      | Inr found \<Rightarrow>
          (if found then
             (case re_sub pattern replacement line count of
                Inl e \<Rightarrow> Inl e
              | Inr line' \<Rightarrow> Inr (Some line'))
           else first_match ps count line))"

definition request_patterns :: "(string \<times> string) list" where
  "request_patterns =
     [(bs # ''brequest'' @ bs # ''s*:'', ''_request:''),
      (bs # ''brequest'' @ bs # ''s*'' @ bs # '')'', ''_request)''),
      (bs # ''brequest'' @ bs # ''s*,'', ''_request,'')]"

definition fix_unused_request_param :: "string \<Rightarrow> int \<Rightarrow> failure + string" where
  "fix_unused_request_param content line_num =
     (let lines = split_nl content in
      if 0 \<le> line_num - 1 \<and> line_num - 1 < int (length lines) then
        (case first_match request_patterns 0 (lines ! nat (line_num - 1)) of
           Inl e \<Rightarrow> Inl e
         | Inr None \<Rightarrow> Inr (join_nl lines)
         | Inr (Some line') \<Rightarrow> Inr (join_nl (lines[nat (line_num - 1) := line'])))
      else Inr (join_nl lines))"

definition var_patterns :: "string \<Rightarrow> (string \<times> string) list" where
  "var_patterns var_name =
     [(bs # ''bconst'' @ bs # ''s+'' @ var_name @ bs # ''b'', ''const _'' @ var_name),
      (bs # ''blet'' @ bs # ''s+'' @ var_name @ bs # ''b'', ''let _'' @ var_name),
      (bs # ''b'' @ var_name @ bs # ''s*:'', ''_'' @ var_name @ '':''),
      (bs # ''b'' @ var_name @ bs # ''s*'' @ bs # '')'', ''_'' @ var_name @ '')''),
      (bs # ''b'' @ var_name @ bs # ''s*,'', ''_'' @ var_name @ '',''),
      (''='' @ bs # ''s*'' @ var_name @ bs # ''b'', ''= _'' @ var_name)]"

definition fix_unused_var :: "string \<Rightarrow> int \<Rightarrow> string \<Rightarrow> failure + string" where
  "fix_unused_var content line_num var_name =
     (let lines = split_nl content in
      if 0 \<le> line_num - 1 \<and> line_num - 1 < int (length lines) then
        (case first_match (var_patterns var_name) 1 (lines ! nat (line_num - 1)) of
           Inl e \<Rightarrow> Inl e
         | Inr None \<Rightarrow> Inr (join_nl lines)
         | Inr (Some line') \<Rightarrow> Inr (join_nl (lines[nat (line_num - 1) := line'])))
      else Inr (join_nl lines))"

definition fix_explicit_any :: "string \<Rightarrow> int \<Rightarrow> failure + string" where
  "fix_explicit_any content line_num =
     (let lines = split_nl content in
      if 0 \<le> line_num - 1 \<and> line_num - 1 < int (length lines) then
        (case re_sub ('':'' @ bs # ''s*any'' @ bs # ''b'') '': unknown'' (lines ! nat (line_num - 1)) 0 of
           Inl e \<Rightarrow> Inl e
         | Inr line1 \<Rightarrow>
        (case re_sub ''<any>'' ''<unknown>'' line1 0 of
           Inl e \<Rightarrow> Inl e
         | Inr line2 \<Rightarrow>
        (case re_sub (bs # ''bas'' @ bs # ''s+any'' @ bs # ''b'') ''as unknown'' line2 0 of
           Inl e \<Rightarrow> Inl e
         | Inr line3 \<Rightarrow> Inr (join_nl (lines[nat (line_num - 1) := line3])))))
      else Inr (join_nl lines))"

definition fix_empty_object_type :: "string \<Rightarrow> int \<Rightarrow> failure + string" where
  "fix_empty_object_type content line_num =
     (let lines = split_nl content in
      if 0 \<le> line_num - 1 \<and> line_num - 1 < int (length lines) then
        (case re_sub ('':'' @ bs # ''s*'' @ bs # ''{'' @ bs # ''s*'' @ bs # ''}'') '': unknown''
                (lines ! nat (line_num - 1)) 0 of
           Inl e \<Rightarrow> Inl e
         | Inr line1 \<Rightarrow>
        (case re_sub (''<'' @ bs # ''{'' @ bs # ''s*'' @ bs # ''}>'') ''<unknown>'' line1 0 of
           Inl e \<Rightarrow> Inl e
         | Inr line2 \<Rightarrow> Inr (join_nl (lines[nat (line_num - 1) := line2]))))
      else Inr (join_nl lines))"

definition remove_unused_import :: "string \<Rightarrow> int \<Rightarrow> string \<Rightarrow> failure + string" where
  "remove_unused_import content line_num import_name =
     (let lines = split_nl content in
      if 0 \<le> line_num - 1 \<and> line_num - 1 < int (length lines) then
        (case re_match (''import'' @ bs # ''s+'' @ bs # ''{'' @ bs # ''s*'' @ import_name
                          @ bs # ''s*'' @ bs # ''}'') (lines ! nat (line_num - 1)) of
           Inl e \<Rightarrow> Inl e
         | Inr single \<Rightarrow>
             (if single then Inr (join_nl (lines[nat (line_num - 1) := []]))
              else
        (case re_sub ('',?'' @ bs # ''s*'' @ import_name @ bs # ''s*,?'') [] (lines ! nat (line_num - 1)) 0 of
           Inl e \<Rightarrow> Inl e
         | Inr line1 \<Rightarrow>
        (case re_sub ('','' @ bs # ''s*,'') '','' line1 0 of
           Inl e \<Rightarrow> Inl e
         | Inr line2 \<Rightarrow>
        (case re_sub (bs # ''{'' @ bs # ''s*,'') ''{'' line2 0 of
           Inl e \<Rightarrow> Inl e
         | Inr line3 \<Rightarrow>
        (case re_sub ('','' @ bs # ''s*'' @ bs # ''}'') ''}'' line3 0 of
           Inl e \<Rightarrow> Inl e
         | Inr line4 \<Rightarrow> Inr (join_nl (lines[nat (line_num - 1) := line4]))))))))
      else Inr (join_nl lines))"

text \<open>
  The chain \<^verbatim>\<open>if fix_type == 'unused_param': ... elif ...\<close> of \<^verbatim>\<open>main\<close>; an unknown
  category leaves the content as it is.
\<close>

definition apply_fix :: "string \<Rightarrow> string \<Rightarrow> string \<Rightarrow> int \<Rightarrow> failure + string" where
  "apply_fix fix_type detail content line_num =
     (if fix_type = ''unused_param'' then fix_unused_request_param content line_num
      else if fix_type = ''unused_var'' then fix_unused_var content line_num detail
      else if fix_type = ''explicit_any'' then fix_explicit_any content line_num
      else if fix_type = ''empty_object'' then fix_empty_object_type content line_num
      else if fix_type = ''unused_import'' then remove_unused_import content line_num detail
      else Inr content)"

section \<open>Auxiliary definitions for the proofs\<close>

text \<open>
  A detail is free of pattern syntax when it has none of the characters that are special
  in a pattern and no backslash: pasted into a pattern it stands for itself, and pasted
  into a replacement it is literal text.
\<close>

definition no_metachar :: "string \<Rightarrow> bool" where
  "no_metachar d = (\<forall>c\<in>set d. c \<notin> set ''*+?.^$|()[{'' \<and> c \<noteq> bs)"

text \<open>
  The five rule functions share one frame: split the content, test the line number, rewrite
  the one line, join. \<open>on_line\<close> is that frame, and the functions \<open>..._line\<close> are
  the bodies of the five \<^verbatim>\<open>if\<close> blocks as functions of the line alone; the lemmas
  \<open>..._on_line\<close> below show that each rule function is its body inside the frame.
\<close>

definition on_line :: "(string \<Rightarrow> failure + string) \<Rightarrow> string \<Rightarrow> int \<Rightarrow> failure + string" where
  "on_line f content line_num =
     (if 0 \<le> line_num - 1 \<and> line_num - 1 < int (length (split_nl content)) then
        (case f (split_nl content ! nat (line_num - 1)) of
           Inl e \<Rightarrow> Inl e
         | Inr l \<Rightarrow> Inr (join_nl ((split_nl content)[nat (line_num - 1) := l])))
      else Inr content)"

definition keep :: "string \<Rightarrow> failure + string option \<Rightarrow> failure + string" where
  "keep line r = (case r of Inl e \<Rightarrow> Inl e | Inr None \<Rightarrow> Inr line | Inr (Some l) \<Rightarrow> Inr l)"

definition request_line :: "string \<Rightarrow> failure + string" where
  "request_line line = keep line (first_match request_patterns 0 line)"

definition var_line :: "string \<Rightarrow> string \<Rightarrow> failure + string" where
  "var_line var_name line = keep line (first_match (var_patterns var_name) 1 line)"

definition any_line :: "string \<Rightarrow> failure + string" where
  "any_line line =
     (case re_sub ('':'' @ bs # ''s*any'' @ bs # ''b'') '': unknown'' line 0 of
        Inl e \<Rightarrow> Inl e
      | Inr line1 \<Rightarrow>
     (case re_sub ''<any>'' ''<unknown>'' line1 0 of
        Inl e \<Rightarrow> Inl e
      | Inr line2 \<Rightarrow> re_sub (bs # ''bas'' @ bs # ''s+any'' @ bs # ''b'') ''as unknown'' line2 0))"

definition object_line :: "string \<Rightarrow> failure + string" where
  "object_line line =
     (case re_sub ('':'' @ bs # ''s*'' @ bs # ''{'' @ bs # ''s*'' @ bs # ''}'') '': unknown'' line 0 of
        Inl e \<Rightarrow> Inl e
      | Inr line1 \<Rightarrow> re_sub (''<'' @ bs # ''{'' @ bs # ''s*'' @ bs # ''}>'') ''<unknown>'' line1 0)"

definition import_line :: "string \<Rightarrow> string \<Rightarrow> failure + string" where
  "import_line import_name line =
     (case re_match (''import'' @ bs # ''s+'' @ bs # ''{'' @ bs # ''s*'' @ import_name
                       @ bs # ''s*'' @ bs # ''}'') line of
        Inl e \<Rightarrow> Inl e
      | Inr single \<Rightarrow>
          (if single then Inr []
           else
     (case re_sub ('',?'' @ bs # ''s*'' @ import_name @ bs # ''s*,?'') [] line 0 of
        Inl e \<Rightarrow> Inl e
      | Inr line1 \<Rightarrow>
     (case re_sub ('','' @ bs # ''s*,'') '','' line1 0 of
        Inl e \<Rightarrow> Inl e
      | Inr line2 \<Rightarrow>
     (case re_sub (bs # ''{'' @ bs # ''s*,'') ''{'' line2 0 of
        Inl e \<Rightarrow> Inl e
      | Inr line3 \<Rightarrow> re_sub ('','' @ bs # ''s*'' @ bs # ''}'') ''}'' line3 0)))))"

text \<open>The items of a run of literal characters.\<close>

definition lits :: "string \<Rightarrow> node list" where
  "lits d = map (\<lambda>c. One (Lit c)) d"


text \<open>
  The target line of a call, when the line number is within bounds (the \<^verbatim>\<open>get_line\<close> of
  the specification).
\<close>

definition target :: "string \<Rightarrow> int \<Rightarrow> string option" where
  "target content line_num =
     (if 0 \<le> line_num - 1 \<and> line_num - 1 < int (length (split_nl content))
      then Some (split_nl content ! nat (line_num - 1)) else None)"

text \<open>
  No pattern of a list is found in a line: every \<^verbatim>\<open>re.search\<close> returns without a match.
  The lists below repeat the patterns of \<open>fix_explicit_any\<close>, \<open>fix_empty_object_type\<close>
  and \<open>remove_unused_import\<close>.
\<close>

definition no_match :: "string list \<Rightarrow> string \<Rightarrow> bool" where
  "no_match ps line = (\<forall>p\<in>set ps. re_search p line = Inr False)"

definition any_patterns :: "string list" where
  "any_patterns = ['':'' @ bs # ''s*any'' @ bs # ''b'', ''<any>'', bs # ''bas'' @ bs # ''s+any'' @ bs # ''b'']"

definition object_patterns :: "string list" where
  "object_patterns =
     ['':'' @ bs # ''s*'' @ bs # ''{'' @ bs # ''s*'' @ bs # ''}'', ''<'' @ bs # ''{'' @ bs # ''s*'' @ bs # ''}>'']"

definition import_patterns :: "string \<Rightarrow> string list" where
  "import_patterns import_name =
     ['',?'' @ bs # ''s*'' @ import_name @ bs # ''s*,?'', '','' @ bs # ''s*,'', bs # ''{'' @ bs # ''s*,'',
      '','' @ bs # ''s*'' @ bs # ''}'']"

definition import_head :: "string \<Rightarrow> string" where
  "import_head import_name =
     ''import'' @ bs # ''s+'' @ bs # ''{'' @ bs # ''s*'' @ import_name @ bs # ''s*'' @ bs # ''}''"


text \<open>\<^verbatim>\<open>re.sub\<close> without a count, on a compiled pattern: every match is replaced.\<close>

definition sub_all :: "node list \<Rightarrow> string \<Rightarrow> string \<Rightarrow> string" where
  "sub_all ns repl s = sub_loop ns repl 0 0 False None s"


text \<open>
  For the second application of a rule. A text is free of a pattern, from a position with
  the character \<open>prev\<close> before it, when the search finds no match.
\<close>

definition free :: "node list \<Rightarrow> char option \<Rightarrow> string \<Rightarrow> bool" where
  "free ns prev s = (search_from ns False prev s = None)"

text \<open>
  No match of the pattern starts inside the text \<open>r\<close> (a replacement), whatever comes
  before it and whatever text \<open>t\<close> follows it.
\<close>

fun dead :: "node list \<Rightarrow> string \<Rightarrow> string \<Rightarrow> bool" where
  "dead ns [] t = True"
| "dead ns (c # cs) t = ((\<forall>prev. match_nodes ns False 0 prev (c # cs @ t) = None) \<and> dead ns cs t)"

text \<open>
  A character stops a pattern when no item of the pattern accepts it: the matcher cannot
  pass it, so what follows it has no influence on the result.
\<close>

fun rejects :: "node \<Rightarrow> char \<Rightarrow> bool" where
  "rejects Boundary c = True"
| "rejects (One a) c = (\<not> atom_ok a c)"
| "rejects (Opt a) c = (\<not> atom_ok a c)"
| "rejects (Star a) c = (\<not> atom_ok a c)"
| "rejects (Plus a) c = (\<not> atom_ok a c)"

definition stops :: "char \<Rightarrow> node list \<Rightarrow> bool" where
  "stops c ns = (\<forall>n\<in>set ns. rejects n c)"

text \<open>
  The compiled patterns of \<open>fix_explicit_any\<close> and \<open>fix_empty_object_type\<close>, in
  the order of the source.
\<close>

definition any1 :: "node list" where
  "any1 = One (Lit (CHR '':'')) # Star Space_Class # lits ''any'' @ [Boundary]"

definition any2 :: "node list" where
  "any2 = lits ''<any>''"

definition any3 :: "node list" where
  "any3 = Boundary # lits ''as'' @ Plus Space_Class # lits ''any'' @ [Boundary]"

definition obj1 :: "node list" where
  "obj1 = [One (Lit (CHR '':'')), Star Space_Class, One (Lit (CHR ''{'')), Star Space_Class,
           One (Lit (CHR ''}''))]"

definition obj2 :: "node list" where
  "obj2 = [One (Lit (CHR ''<'')), One (Lit (CHR ''{'')), Star Space_Class, One (Lit (CHR ''}'')),
           One (Lit (CHR ''>''))]"

section \<open>Facts about the line store and the matcher\<close>

lemma split_nl_nonempty: "split_nl s \<noteq> []"
  by (induction s) (auto split: list.splits)

lemma join_nl_Cons_Cons: "join_nl ((c # l) # ls) = c # join_nl (l # ls)"
  by (cases ls) auto

lemma join_split: "join_nl (split_nl s) = s"
proof (induction s)
  case Nil
  then show ?case by simp
next
  case (Cons c cs)
  then show ?case
    by (cases "split_nl cs") (auto simp: split_nl_nonempty join_nl_Cons_Cons)
qed

lemma split_nl_lines: "l \<in> set (split_nl s) \<Longrightarrow> nl \<notin> set l"
proof (induction s arbitrary: l)
  case Nil
  then show ?case by simp
next
  case (Cons c cs)
  obtain m ms where ms: "split_nl cs = m # ms"
    using split_nl_nonempty [of cs] by (cases "split_nl cs") auto
  with Cons.IH have "nl \<notin> set m" "\<forall>x\<in>set ms. nl \<notin> set x"
    by auto
  with Cons.prems ms show ?case
    by (auto split: if_splits)
qed

lemma split_nl_plain: "nl \<notin> set l \<Longrightarrow> split_nl l = [l]"
  by (induction l) auto

lemma split_nl_append: "nl \<notin> set l \<Longrightarrow> split_nl (l @ nl # rest) = l # split_nl rest"
  by (induction l) (auto split: list.splits simp: split_nl_nonempty)

lemma split_join: "ls \<noteq> [] \<Longrightarrow> \<forall>l\<in>set ls. nl \<notin> set l \<Longrightarrow> split_nl (join_nl ls) = ls"
  by (induction ls rule: join_nl.induct) (auto simp: split_nl_plain split_nl_append)

lemma parse_re_literal:
  "no_metachar d \<Longrightarrow> parse_re (d @ rest) acc = parse_re rest (rev (map (\<lambda>c. One (Lit c)) d) @ acc)"
proof (induction d arbitrary: acc)
  case Nil
  then show ?case by simp
next
  case (Cons c d)
  then have c: "c \<noteq> bs" "c \<notin> set ''*+?''" "c \<notin> set ''.^$|()[{''" and d: "no_metachar d"
    by (auto simp: no_metachar_def)
  have "parse_re (c # (d @ rest)) acc = parse_re (d @ rest) (One (Lit c) # acc)"
    using c by (cases "d @ rest") auto
  with Cons.IH [OF d] show ?case by simp
qed

lemma sub_loop_chars: "set (sub_loop ns repl count n adv prev s) \<subseteq> set s \<union> set repl"
proof (induction ns repl count n adv prev s rule: sub_loop.induct)
  case (1 ns repl count n adv prev s)
  show ?case
  proof (cases "count \<noteq> 0 \<and> \<not> n < count")
    case True
    then show ?thesis by (subst sub_loop.simps) simp
  next
    case False
    show ?thesis
    proof (cases "search_from ns adv prev s")
      case None
      with False show ?thesis by (subst sub_loop.simps) simp
    next
      case (Some p)
      obtain b len where p: "p = (b, len)" by (cases p)
      from "1.IH" [OF False Some [unfolded p] refl]
      have "set (sub_loop ns repl count (Suc n) (len = 0) (last_seen prev (take (b + len) s)) (drop (b + len) s))
            \<subseteq> set (drop (b + len) s) \<union> set repl" .
      moreover have "set (take b s) \<subseteq> set s" "set (drop (b + len) s) \<subseteq> set s"
        by (auto dest: in_set_takeD in_set_dropD)
      ultimately show ?thesis
        using False Some p by (subst sub_loop.simps) auto
    qed
  qed
qed

lemma sub_loop_no_match: "search_from ns adv prev s = None \<Longrightarrow> sub_loop ns repl count n adv prev s = s"
  by (subst sub_loop.simps) simp



section \<open>Each rule is its line rewrite inside the frame\<close>

lemma fix_unused_request_param_on_line:
  "fix_unused_request_param content line_num = on_line request_line content line_num"
  by (auto simp: fix_unused_request_param_def on_line_def request_line_def keep_def Let_def join_split
           split: sum.splits option.splits)

lemma fix_unused_var_on_line:
  "fix_unused_var content line_num var_name = on_line (var_line var_name) content line_num"
  by (auto simp: fix_unused_var_def on_line_def var_line_def keep_def Let_def join_split
           split: sum.splits option.splits)

lemma fix_explicit_any_on_line:
  "fix_explicit_any content line_num = on_line any_line content line_num"
  by (auto simp: fix_explicit_any_def on_line_def any_line_def Let_def join_split
           split: sum.splits)

lemma fix_empty_object_type_on_line:
  "fix_empty_object_type content line_num = on_line object_line content line_num"
  by (auto simp: fix_empty_object_type_def on_line_def object_line_def Let_def join_split
           split: sum.splits)

lemma remove_unused_import_on_line:
  "remove_unused_import content line_num import_name = on_line (import_line import_name) content line_num"
  by (auto simp: remove_unused_import_def on_line_def import_line_def Let_def join_split
           split: sum.splits)

lemma on_line_out_of_range:
  "line_num \<le> 0 \<or> int (length (split_nl content)) < line_num \<Longrightarrow> on_line f content line_num = Inr content"
  by (auto simp: on_line_def)

lemma on_line_returns:
  "(\<And>l. \<exists>l'. f l = Inr l') \<Longrightarrow> \<exists>out. on_line f content line_num = Inr out"
proof -
  assume f: "\<And>l. \<exists>l'. f l = Inr l'"
  obtain l' where "f (split_nl content ! nat (line_num - 1)) = Inr l'"
    using f by blast
  then show ?thesis
    by (simp add: on_line_def)
qed


section \<open>What the patterns of the source compile to\<close>

lemma parse_re_repeat:
  assumes "no_metachar d" and "r \<in> set ''*+?''"
  shows "parse_re (r # d @ bs # rest) (One a # acc) = parse_re (d @ bs # rest) (repeat_of r a # acc)"
proof (cases d)
  case Nil
  with assms(2) show ?thesis by (auto simp: bs_def)
next
  case (Cons c cs)
  with assms(1) have "c \<notin> set ''?+''"
    by (auto simp: no_metachar_def)
  with assms(2) Cons show ?thesis by (auto simp: bs_def)
qed

lemmas parse_unfold = compile_def escape_def repeat_of_def ascii_alnum_def lits_def

lemma compile_var1:
  "no_metachar d \<Longrightarrow> compile (bs # ''bconst'' @ bs # ''s+'' @ d @ bs # ''b'')
     = Inr (Boundary # lits ''const'' @ Plus Space_Class # lits d @ [Boundary])"
  using parse_re_repeat [of d "CHR ''+''" "''b''" Space_Class "rev (Boundary # lits ''const'')"]
        parse_re_literal [of d "bs # ''b''" "Plus Space_Class # rev (Boundary # lits ''const'')"]
  by (simp add: parse_unfold) (simp add: bs_def)

lemma compile_var2:
  "no_metachar d \<Longrightarrow> compile (bs # ''blet'' @ bs # ''s+'' @ d @ bs # ''b'')
     = Inr (Boundary # lits ''let'' @ Plus Space_Class # lits d @ [Boundary])"
  using parse_re_repeat [of d "CHR ''+''" "''b''" Space_Class "rev (Boundary # lits ''let'')"]
        parse_re_literal [of d "bs # ''b''" "Plus Space_Class # rev (Boundary # lits ''let'')"]
  by (simp add: parse_unfold) (simp add: bs_def)

lemma compile_var3:
  "no_metachar d \<Longrightarrow> compile (bs # ''b'' @ d @ bs # ''s*:'')
     = Inr (Boundary # lits d @ [Star Space_Class, One (Lit (CHR '':''))])"
  using parse_re_literal [of d "bs # ''s*:''" "[Boundary]"]
  by (simp add: parse_unfold) (simp add: bs_def)

lemma compile_var4:
  "no_metachar d \<Longrightarrow> compile (bs # ''b'' @ d @ bs # ''s*'' @ bs # '')'')
     = Inr (Boundary # lits d @ [Star Space_Class, One (Lit (CHR '')''))])"
  using parse_re_literal [of d "bs # ''s*'' @ bs # '')''" "[Boundary]"]
  by (simp add: parse_unfold) (simp add: bs_def)

lemma compile_var5:
  "no_metachar d \<Longrightarrow> compile (bs # ''b'' @ d @ bs # ''s*,'')
     = Inr (Boundary # lits d @ [Star Space_Class, One (Lit (CHR '',''))])"
  using parse_re_literal [of d "bs # ''s*,''" "[Boundary]"]
  by (simp add: parse_unfold) (simp add: bs_def)

lemma compile_var6:
  "no_metachar d \<Longrightarrow> compile (''='' @ bs # ''s*'' @ d @ bs # ''b'')
     = Inr (One (Lit (CHR ''='')) # Star Space_Class # lits d @ [Boundary])"
  using parse_re_repeat [of d "CHR ''*''" "''b''" Space_Class "[One (Lit (CHR ''=''))]"]
        parse_re_literal [of d "bs # ''b''" "[Star Space_Class, One (Lit (CHR ''=''))]"]
  by (simp add: parse_unfold) (simp add: bs_def)

lemma compile_import1:
  "no_metachar d \<Longrightarrow> compile (''import'' @ bs # ''s+'' @ bs # ''{'' @ bs # ''s*'' @ d @ bs # ''s*'' @ bs # ''}'')
     = Inr (lits ''import'' @ Plus Space_Class # One (Lit (CHR ''{'')) # Star Space_Class # lits d
            @ [Star Space_Class, One (Lit (CHR ''}''))])"
  using parse_re_repeat [of d "CHR ''*''" "''s*'' @ bs # ''}''" Space_Class
          "One (Lit (CHR ''{'')) # Plus Space_Class # rev (lits ''import'')"]
        parse_re_literal [of d "bs # ''s*'' @ bs # ''}''"
          "Star Space_Class # One (Lit (CHR ''{'')) # Plus Space_Class # rev (lits ''import'')"]
  by (simp add: parse_unfold) (simp add: bs_def)

lemma compile_import2:
  "no_metachar d \<Longrightarrow> compile ('',?'' @ bs # ''s*'' @ d @ bs # ''s*,?'')
     = Inr (Opt (Lit (CHR '','')) # Star Space_Class # lits d @ [Star Space_Class, Opt (Lit (CHR '',''))])"
  using parse_re_repeat [of d "CHR ''*''" "''s*,?''" Space_Class "[Opt (Lit (CHR '',''))]"]
        parse_re_literal [of d "bs # ''s*,?''" "[Star Space_Class, Opt (Lit (CHR '',''))]"]
  by (simp add: parse_unfold) (simp add: bs_def)

lemma compile_fixed:
  "compile (bs # ''brequest'' @ bs # ''s*:'') = Inr (Boundary # lits ''request'' @ [Star Space_Class, One (Lit (CHR '':''))])"
  "compile (bs # ''brequest'' @ bs # ''s*'' @ bs # '')'') = Inr (Boundary # lits ''request'' @ [Star Space_Class, One (Lit (CHR '')''))])"
  "compile (bs # ''brequest'' @ bs # ''s*,'') = Inr (Boundary # lits ''request'' @ [Star Space_Class, One (Lit (CHR '',''))])"
  "compile ('':'' @ bs # ''s*any'' @ bs # ''b'') = Inr (One (Lit (CHR '':'')) # Star Space_Class # lits ''any'' @ [Boundary])"
  "compile ''<any>'' = Inr (lits ''<any>'')"
  "compile (bs # ''bas'' @ bs # ''s+any'' @ bs # ''b'') = Inr (Boundary # lits ''as'' @ Plus Space_Class # lits ''any'' @ [Boundary])"
  "compile ('':'' @ bs # ''s*'' @ bs # ''{'' @ bs # ''s*'' @ bs # ''}'')
     = Inr [One (Lit (CHR '':'')), Star Space_Class, One (Lit (CHR ''{'')), Star Space_Class, One (Lit (CHR ''}''))]"
  "compile (''<'' @ bs # ''{'' @ bs # ''s*'' @ bs # ''}>'')
     = Inr [One (Lit (CHR ''<'')), One (Lit (CHR ''{'')), Star Space_Class, One (Lit (CHR ''}'')), One (Lit (CHR ''>''))]"
  "compile ('','' @ bs # ''s*,'') = Inr [One (Lit (CHR '','')), Star Space_Class, One (Lit (CHR '',''))]"
  "compile (bs # ''{'' @ bs # ''s*,'') = Inr [One (Lit (CHR ''{'')), Star Space_Class, One (Lit (CHR '',''))]"
  "compile ('','' @ bs # ''s*'' @ bs # ''}'') = Inr [One (Lit (CHR '','')), Star Space_Class, One (Lit (CHR ''}''))]"
  by (simp_all add: parse_unfold bs_def)

section \<open>The line rewrites return, and keep a line free of newlines\<close>

lemma re_sub_compiled:
  "compile p = Inr ns \<Longrightarrow> bs \<notin> set r \<Longrightarrow> re_sub p r s c = Inr (sub_loop ns r c 0 False None s)"
  by (simp add: re_sub_def template_def)

lemma re_search_compiled:
  "compile p = Inr ns \<Longrightarrow> re_search p s = Inr (search_from ns False None s \<noteq> None)"
  by (simp add: re_search_def)

lemma re_sub_newline_free:
  assumes "re_sub p r s c = Inr out" and "nl \<notin> set s" and "nl \<notin> set r"
  shows "nl \<notin> set out"
proof -
  from assms(1) obtain ns where "out = sub_loop ns r c 0 False None s"
    by (auto simp: re_sub_def template_def split: sum.splits if_splits)
  with sub_loop_chars [of ns r c 0 False None s] assms(2,3) show ?thesis
    by auto
qed

lemma first_match_returns:
  "\<forall>(p, r)\<in>set ps. (\<exists>ns. compile p = Inr ns) \<and> bs \<notin> set r \<Longrightarrow> \<exists>x. first_match ps c l = Inr x"
proof (induction ps)
  case Nil
  then show ?case by simp
next
  case (Cons pr ps)
  obtain p r where pr: "pr = (p, r)" by (cases pr)
  with Cons.prems obtain ns where ns: "compile p = Inr ns" and r: "bs \<notin> set r"
    by auto
  from Cons have "\<exists>x. first_match ps c l = Inr x"
    by simp
  then show ?case
    by (auto simp: pr re_search_compiled [OF ns] re_sub_compiled [OF ns r])
qed


lemma no_metachar_bs: "no_metachar d \<Longrightarrow> bs \<notin> set d"
  by (auto simp: no_metachar_def)

lemma var_patterns_compile:
  assumes "no_metachar d" and "(p, r) \<in> set (var_patterns d)"
  shows "(\<exists>ns. compile p = Inr ns) \<and> bs \<notin> set r"
  using assms(2) no_metachar_bs [OF assms(1)]
    compile_var1 [OF assms(1)] compile_var2 [OF assms(1)] compile_var3 [OF assms(1)]
    compile_var4 [OF assms(1)] compile_var5 [OF assms(1)] compile_var6 [OF assms(1)]
  by (auto simp: var_patterns_def) (simp_all add: bs_def)


lemma request_patterns_compile:
  "(p, r) \<in> set request_patterns \<Longrightarrow> (\<exists>ns. compile p = Inr ns) \<and> bs \<notin> set r \<and> nl \<notin> set r"
  using compile_fixed(1-3)
  by (auto simp: request_patterns_def) (simp_all add: bs_def nl_def)

lemma re_sub_fixed:
  "re_sub ('':'' @ bs # ''s*any'' @ bs # ''b'') '': unknown'' s c
     = Inr (sub_loop (One (Lit (CHR '':'')) # Star Space_Class # lits ''any'' @ [Boundary]) '': unknown'' c 0 False None s)"
  "re_sub ''<any>'' ''<unknown>'' s c = Inr (sub_loop (lits ''<any>'') ''<unknown>'' c 0 False None s)"
  "re_sub (bs # ''bas'' @ bs # ''s+any'' @ bs # ''b'') ''as unknown'' s c
     = Inr (sub_loop (Boundary # lits ''as'' @ Plus Space_Class # lits ''any'' @ [Boundary]) ''as unknown'' c 0 False None s)"
  "re_sub ('':'' @ bs # ''s*'' @ bs # ''{'' @ bs # ''s*'' @ bs # ''}'') '': unknown'' s c
     = Inr (sub_loop [One (Lit (CHR '':'')), Star Space_Class, One (Lit (CHR ''{'')), Star Space_Class,
              One (Lit (CHR ''}''))] '': unknown'' c 0 False None s)"
  "re_sub (''<'' @ bs # ''{'' @ bs # ''s*'' @ bs # ''}>'') ''<unknown>'' s c
     = Inr (sub_loop [One (Lit (CHR ''<'')), One (Lit (CHR ''{'')), Star Space_Class, One (Lit (CHR ''}'')),
              One (Lit (CHR ''>''))] ''<unknown>'' c 0 False None s)"
  "re_sub ('','' @ bs # ''s*,'') '','' s c
     = Inr (sub_loop [One (Lit (CHR '','')), Star Space_Class, One (Lit (CHR '',''))] '','' c 0 False None s)"
  "re_sub (bs # ''{'' @ bs # ''s*,'') ''{'' s c
     = Inr (sub_loop [One (Lit (CHR ''{'')), Star Space_Class, One (Lit (CHR '',''))] ''{'' c 0 False None s)"
  "re_sub ('','' @ bs # ''s*'' @ bs # ''}'') ''}'' s c
     = Inr (sub_loop [One (Lit (CHR '','')), Star Space_Class, One (Lit (CHR ''}''))] ''}'' c 0 False None s)"
  by (rule re_sub_compiled, rule compile_fixed, simp add: bs_def)+

lemma var_line_returns:
  assumes "no_metachar d"
  shows "\<exists>l'. var_line d l = Inr l'"
proof -
  have "\<forall>(p, r)\<in>set (var_patterns d). (\<exists>ns. compile p = Inr ns) \<and> bs \<notin> set r"
    using var_patterns_compile [OF assms] by blast
  from first_match_returns [OF this] obtain x where "first_match (var_patterns d) 1 l = Inr x"
    by blast
  then show ?thesis
    by (cases x) (simp_all add: var_line_def keep_def)
qed



lemma request_line_returns: "\<exists>l'. request_line l = Inr l'"
proof -
  have "\<forall>(p, r)\<in>set request_patterns. (\<exists>ns. compile p = Inr ns) \<and> bs \<notin> set r"
    using request_patterns_compile by blast
  from first_match_returns [OF this] obtain x where "first_match request_patterns 0 l = Inr x"
    by blast
  then show ?thesis
    by (cases x) (simp_all add: request_line_def keep_def)
qed


lemma any_line_returns: "\<exists>l'. any_line l = Inr l'"
  unfolding any_line_def re_sub_fixed by simp

lemma any_line_all:
  "any_line line = Inr
     (sub_all (Boundary # lits ''as'' @ Plus Space_Class # lits ''any'' @ [Boundary]) ''as unknown''
       (sub_all (lits ''<any>'') ''<unknown>''
         (sub_all (One (Lit (CHR '':'')) # Star Space_Class # lits ''any'' @ [Boundary]) '': unknown'' line)))"
  unfolding any_line_def re_sub_fixed sub_all_def by simp

lemma any_line_newline_free:
  "nl \<notin> set l \<Longrightarrow> any_line l = Inr l' \<Longrightarrow> nl \<notin> set l'"
  unfolding any_line_def
  by (auto split: sum.splits dest!: re_sub_newline_free simp: nl_def)

lemma object_line_returns: "\<exists>l'. object_line l = Inr l'"
  unfolding object_line_def re_sub_fixed by simp

lemma object_line_newline_free:
  "nl \<notin> set l \<Longrightarrow> object_line l = Inr l' \<Longrightarrow> nl \<notin> set l'"
  unfolding object_line_def
  by (auto split: sum.splits dest!: re_sub_newline_free simp: nl_def)

lemma import_line_returns:
  assumes "no_metachar d"
  shows "\<exists>l'. import_line d l = Inr l'"
proof -
  have "bs \<notin> set []" by simp
  note first = re_sub_compiled [OF compile_import2 [OF assms] this]
  show ?thesis
    unfolding import_line_def re_match_def compile_import1 [OF assms] first re_sub_fixed by simp
qed


section \<open>Every rule keeps the frame\<close>








section \<open>Without a match a rule returns the content as it is\<close>

lemma on_line_same:
  "target content line_num = Some line \<Longrightarrow> f line = Inr line \<Longrightarrow> on_line f content line_num = Inr content"
  by (auto simp: target_def on_line_def join_split split: if_splits)

lemma first_match_none: "no_match (map fst ps) line \<Longrightarrow> first_match ps c line = Inr None"
  by (induction ps) (auto simp: no_match_def)

lemma re_sub_no_match:
  assumes "re_search p s = Inr False" and "bs \<notin> set r"
  shows "re_sub p r s c = Inr s"
proof -
  from assms(1) obtain ns where ns: "compile p = Inr ns"
    by (auto simp: re_search_def split: sum.splits)
  with assms(1) have "search_from ns False None s = None"
    by (cases "search_from ns False None s") (auto simp: re_search_def)
  then show ?thesis
    by (simp add: re_sub_compiled [OF ns assms(2)] sub_loop_no_match)
qed

lemma request_line_settled: "no_match (map fst request_patterns) line \<Longrightarrow> request_line line = Inr line"
  by (simp add: request_line_def keep_def first_match_none)

lemma var_line_settled: "no_match (map fst (var_patterns d)) line \<Longrightarrow> var_line d line = Inr line"
  by (simp add: var_line_def keep_def first_match_none)

lemma any_line_settled:
  assumes "no_match any_patterns line"
  shows "any_line line = Inr line"
proof -
  have "re_sub ('':'' @ bs # ''s*any'' @ bs # ''b'') '': unknown'' line 0 = Inr line"
    "re_sub ''<any>'' ''<unknown>'' line 0 = Inr line"
    "re_sub (bs # ''bas'' @ bs # ''s+any'' @ bs # ''b'') ''as unknown'' line 0 = Inr line"
    using assms by (auto simp: no_match_def any_patterns_def intro!: re_sub_no_match) (simp_all add: bs_def)
  then show ?thesis
    unfolding any_line_def by simp
qed

lemma object_line_settled:
  assumes "no_match object_patterns line"
  shows "object_line line = Inr line"
proof -
  have "re_sub ('':'' @ bs # ''s*'' @ bs # ''{'' @ bs # ''s*'' @ bs # ''}'') '': unknown'' line 0 = Inr line"
    "re_sub (''<'' @ bs # ''{'' @ bs # ''s*'' @ bs # ''}>'') ''<unknown>'' line 0 = Inr line"
    using assms by (auto simp: no_match_def object_patterns_def intro!: re_sub_no_match) (simp_all add: bs_def)
  then show ?thesis
    unfolding object_line_def by simp
qed

lemma import_line_settled:
  assumes "re_match (import_head d) line = Inr False" and "no_match (import_patterns d) line"
  shows "import_line d line = Inr line"
proof -
  have "re_sub ('',?'' @ bs # ''s*'' @ d @ bs # ''s*,?'') [] line 0 = Inr line"
    "re_sub ('','' @ bs # ''s*,'') '','' line 0 = Inr line"
    "re_sub (bs # ''{'' @ bs # ''s*,'') ''{'' line 0 = Inr line"
    "re_sub ('','' @ bs # ''s*'' @ bs # ''}'') ''}'' line 0 = Inr line"
    using assms(2) by (auto simp: no_match_def import_patterns_def intro!: re_sub_no_match) (simp_all add: bs_def)
  with assms(1) show ?thesis
    unfolding import_line_def import_head_def by simp
qed

section \<open>The rewrites of the example lines\<close>

lemma on_line_target:
  "target content line_num = Some line \<Longrightarrow> f line = Inr line' \<Longrightarrow>
   on_line f content line_num = Inr (join_nl ((split_nl content)[nat (line_num - 1) := line']))"
  by (auto simp: target_def on_line_def split: if_splits)

lemma import_line_single: "import_line ''Foo'' ''import { Foo } from 'x';'' = Inr []"
  by code_simp

lemma import_line_pair: "import_line ''Foo'' ''import { Foo, Bar } from 'x';'' = Inr ''import { Bar } from 'x';''"
  by code_simp

lemma import_line_substring: "import_line ''Foo'' ''import { Food, Foo } from 'x';'' = Inr ''import {d} from 'x';''"
  by code_simp

lemma any_line_twice: "any_line ''function f(x: any): any {'' = Inr ''function f(x: unknown): unknown {''"
  by code_simp

lemma any_line_all_three:
  "any_line ''let a: any = <any>b as any, c:any = <any>d as  any;''
     = Inr ''let a: unknown = <unknown>b as unknown, c: unknown = <unknown>d as unknown;''"
  by code_simp

section \<open>With a detail free of pattern syntax every category returns and keeps the frame\<close>




section \<open>What follows a stopping character does not matter\<close>

lemma free_Nil: "free ns prev [] = (match_nodes ns False 0 prev [] = None)"
  by (simp add: free_def split: option.splits)

lemma free_Cons:
  "free ns prev (c # cs) = (match_nodes ns False 0 prev (c # cs) = None \<and> free ns (Some c) cs)"
  by (auto simp: free_def split: option.splits)

lemma stops_Cons: "stops c (n # ns) = (rejects n c \<and> stops c ns)"
  by (simp add: stops_def)

lemma match_nodes_stop:
  "stops c ns \<Longrightarrow> match_nodes ns adv k prev (x @ c # t) = match_nodes ns adv k prev (x @ c # t')"
proof (induction ns adv k prev "x @ c # t" arbitrary: x rule: match_nodes.induct)
  case (1 adv k prev)
  then show ?case by simp
next
  case (2 ns adv k prev)
  have b: "at_boundary prev (x @ c # t) = at_boundary prev (x @ c # t')"
    by (cases x) auto
  show ?case
  proof (cases "at_boundary prev (x @ c # t)")
    case True
    from "2.prems" have "stops c ns" by (simp add: stops_Cons)
    from "2.hyps" [OF True this]
    show ?thesis using True b by (simp del: at_boundary.simps)
  next
    case False
    with b show ?thesis by (simp del: at_boundary.simps)
  qed
next
  case (3 a ns adv k prev)
  then show ?case by simp
next
  case (4 a ns adv k prev c' cs)
  show ?case
  proof (cases x)
    case Nil
    with 4 show ?thesis by (auto simp: stops_Cons)
  next
    case (Cons y ys)
    with 4 have "cs = ys @ c # t" "c' = y" by auto
    with 4 Cons show ?thesis by (auto simp: stops_Cons)
  qed
next
  case (5 a ns adv k prev)
  then show ?case by simp
next
  case (6 a ns adv k prev c' cs)
  from "6.prems" have st: "stops c ns" and na: "\<not> atom_ok a c"
    by (simp_all add: stops_Cons)
  from "6.hyps"(4) have hd: "c' # cs = x @ c # t" by simp
  show ?case
  proof (cases "atom_ok a c'")
    case True
    with na have "c' \<noteq> c" by auto
    with hd obtain ys where x: "x = c' # ys" and cs: "cs = ys @ c # t"
      by (cases x) auto
    have f1: "match_nodes ns adv (Suc k) (Some c') (ys @ c # t)
            = match_nodes ns adv (Suc k) (Some c') (ys @ c # t')"
      using "6.hyps"(1) [OF True cs st] .
    have f2: "match_nodes ns adv (Suc k) (Some c') cs = None \<Longrightarrow>
        match_nodes ns adv k prev (x @ c # t) = match_nodes ns adv k prev (x @ c # t')"
      using "6.hyps"(2) [OF True _ hd st] .
    show ?thesis
    proof (cases "match_nodes ns adv (Suc k) (Some c') (ys @ c # t)")
      case None
      with f1 have n': "match_nodes ns adv (Suc k) (Some c') (ys @ c # t') = None"
        by simp
      from f2 None cs have "match_nodes ns adv k prev (x @ c # t) = match_nodes ns adv k prev (x @ c # t')"
        by simp
      with True x None n' show ?thesis by simp
    next
      case (Some r)
      with f1 have "match_nodes ns adv (Suc k) (Some c') (ys @ c # t') = Some r"
        by simp
      with True x Some show ?thesis by simp
    qed
  next
    case False
    have r: "match_nodes ns adv k prev (x @ c # t) = match_nodes ns adv k prev (x @ c # t')"
      using "6.hyps"(3) [OF False hd st] .
    show ?thesis
    proof (cases x)
      case Nil
      with hd na r show ?thesis by simp
    next
      case (Cons y ys)
      with hd have "y = c'" by simp
      with False Cons r show ?thesis by simp
    qed
  qed
next
  case (7 a ns adv k prev)
  then show ?case by simp
next
  case (8 a ns adv k prev c' cs)
  from "8.prems" have st: "stops c ns" and na: "\<not> atom_ok a c"
    by (simp_all add: stops_Cons)
  from "8.hyps"(4) have hd: "c' # cs = x @ c # t" by simp
  show ?case
  proof (cases "atom_ok a c'")
    case True
    with na have "c' \<noteq> c" by auto
    with hd obtain ys where x: "x = c' # ys" and cs: "cs = ys @ c # t"
      by (cases x) auto
    have f1: "match_nodes (Star a # ns) adv (Suc k) (Some c') (ys @ c # t)
            = match_nodes (Star a # ns) adv (Suc k) (Some c') (ys @ c # t')"
      using "8.hyps"(1) [OF True cs "8.prems"] .
    have f2: "match_nodes (Star a # ns) adv (Suc k) (Some c') cs = None \<Longrightarrow>
        match_nodes ns adv k prev (x @ c # t) = match_nodes ns adv k prev (x @ c # t')"
      using "8.hyps"(2) [OF True _ hd st] .
    show ?thesis
    proof (cases "match_nodes (Star a # ns) adv (Suc k) (Some c') (ys @ c # t)")
      case None
      with f1 have n': "match_nodes (Star a # ns) adv (Suc k) (Some c') (ys @ c # t') = None"
        by simp
      from f2 None cs have "match_nodes ns adv k prev (x @ c # t) = match_nodes ns adv k prev (x @ c # t')"
        by simp
      with True x None n' show ?thesis by simp
    next
      case (Some r)
      with f1 have "match_nodes (Star a # ns) adv (Suc k) (Some c') (ys @ c # t') = Some r"
        by simp
      with True x Some show ?thesis by simp
    qed
  next
    case False
    have r: "match_nodes ns adv k prev (x @ c # t) = match_nodes ns adv k prev (x @ c # t')"
      using "8.hyps"(3) [OF False hd st] .
    show ?thesis
    proof (cases x)
      case Nil
      with hd na r show ?thesis by simp
    next
      case (Cons y ys)
      with hd have "y = c'" by simp
      with False Cons r show ?thesis by simp
    qed
  qed
next
  case (9 a ns adv k prev)
  then show ?case by simp
next
  case (10 a ns adv k prev c' cs)
  show ?case
  proof (cases x)
    case Nil
    with 10 show ?thesis by (auto simp: stops_Cons)
  next
    case (Cons y ys)
    with 10 have e: "cs = ys @ c # t" "c' = y" by auto
    from "10.prems" have "stops c (Star a # ns)" by (simp add: stops_Cons)
    with 10 e Cons show ?thesis by auto
  qed
qed

section \<open>Where the search has passed there is no match\<close>

lemma last_seen_Cons: "last_seen (Some c) xs = last_seen prev (c # xs)"
  by (cases xs) auto

lemma last_seen_append: "last_seen (last_seen prev xs) ys = last_seen prev (xs @ ys)"
  by (cases ys; cases xs) auto

text \<open>A position reached by the search before the match has no match.\<close>

lemma search_from_leftmost:
  "search_from ns False prev s = Some (b, len) \<Longrightarrow>
   b \<le> length s
   \<and> match_nodes ns False 0 (last_seen prev (take b s)) (drop b s) = Some len
   \<and> (\<forall>g1 g2. take b s = g1 @ g2 \<longrightarrow> g2 \<noteq> [] \<longrightarrow>
         match_nodes ns False 0 (last_seen prev g1) (g2 @ drop b s) = None)"
proof (induction s arbitrary: prev b)
  case Nil
  then show ?case by (auto split: option.splits)
next
  case (Cons c cs)
  show ?case
  proof (cases "match_nodes ns False 0 prev (c # cs)")
    case (Some r)
    with Cons.prems show ?thesis by auto
  next
    case None
    with Cons.prems obtain b' where b: "b = Suc b'" and s: "search_from ns False (Some c) cs = Some (b', len)"
      by (auto split: option.splits)
    from Cons.IH [OF s] have ih: "b' \<le> length cs"
      "match_nodes ns False 0 (last_seen (Some c) (take b' cs)) (drop b' cs) = Some len"
      "\<And>g1 g2. take b' cs = g1 @ g2 \<Longrightarrow> g2 \<noteq> [] \<Longrightarrow>
         match_nodes ns False 0 (last_seen (Some c) g1) (g2 @ drop b' cs) = None"
      by blast+
    have "match_nodes ns False 0 (last_seen prev g1) (g2 @ drop b (c # cs)) = None"
      if "take b (c # cs) = g1 @ g2" "g2 \<noteq> []" for g1 g2
    proof (cases g1)
      case Nil
      with that b have "g2 @ drop b (c # cs) = c # cs"
        by (metis append_Nil append_take_drop_id)
      with None Nil show ?thesis by simp
    next
      case (Cons y ys)
      with that b have "y = c" "take b' cs = ys @ g2" by auto
      with ih(3) [of ys g2] that(2) Cons b show ?thesis
        by (simp add: last_seen_Cons [of c ys prev])
    qed
    with ih b show ?thesis
      by (simp add: last_seen_Cons [of c _ prev])
  qed
qed

lemma free_split:
  "free ns prev (x @ y) \<Longrightarrow>
   free ns (last_seen prev x) y
   \<and> (\<forall>x1 x2. x = x1 @ x2 \<longrightarrow> x2 \<noteq> [] \<longrightarrow> match_nodes ns False 0 (last_seen prev x1) (x2 @ y) = None)"
proof (induction x arbitrary: prev)
  case Nil
  then show ?case by simp
next
  case (Cons c cs)
  from Cons.prems have here: "match_nodes ns False 0 prev (c # cs @ y) = None"
    and rest: "free ns (Some c) (cs @ y)"
    by (simp_all add: free_Cons)
  from Cons.IH [OF rest] have ih: "free ns (last_seen (Some c) cs) y"
    "\<And>x1 x2. cs = x1 @ x2 \<Longrightarrow> x2 \<noteq> [] \<Longrightarrow> match_nodes ns False 0 (last_seen (Some c) x1) (x2 @ y) = None"
    by blast+
  have "match_nodes ns False 0 (last_seen prev x1) (x2 @ y) = None"
    if "c # cs = x1 @ x2" "x2 \<noteq> []" for x1 x2
  proof (cases x1)
    case Nil
    with that have "x2 = c # cs" by simp
    with here Nil show ?thesis by simp
  next
    case (Cons z zs)
    with that have "z = c" "cs = zs @ x2" by auto
    with ih(2) [of zs x2] that(2) Cons show ?thesis
      by (simp add: last_seen_Cons [of c zs prev])
  qed
  with ih(1) show ?case
    by (simp add: last_seen_Cons [of c cs prev])
qed

lemma dead_free:
  "dead ns r y \<Longrightarrow> free ns (last_seen prev r) y \<Longrightarrow> free ns prev (r @ y)"
proof (induction r arbitrary: prev)
  case Nil
  then show ?case by simp
next
  case (Cons c cs)
  from Cons.prems(2) have "free ns (last_seen (Some c) cs) y"
    by (simp add: last_seen_Cons [of c cs prev])
  with Cons.IH [of "Some c"] Cons.prems(1) have "free ns (Some c) (cs @ y)"
    by simp
  with Cons.prems(1) show ?case
    by (simp add: free_Cons)
qed

text \<open>
  Putting a result together: a gap \<open>g\<close> whose positions have no match when the replacement
  follows, then the replacement \<open>r\<close>, inside which nothing matches, then a rest that is free.
\<close>

lemma gap_free:
  assumes "\<And>g1 g2. g = g1 @ g2 \<Longrightarrow> g2 \<noteq> [] \<Longrightarrow>
             match_nodes ns False 0 (last_seen prev g1) (g2 @ y) = None"
    and "free ns (last_seen prev g) y"
  shows "free ns prev (g @ y)"
  using assms
proof (induction g arbitrary: prev)
  case Nil
  then show ?case by simp
next
  case (Cons c cs)
  from Cons.prems(1) [of "[]" "c # cs"] have here: "match_nodes ns False 0 prev (c # cs @ y) = None"
    by simp
  have "free ns (Some c) (cs @ y)"
  proof (rule Cons.IH)
    fix g1 g2 assume "cs = g1 @ g2" "g2 \<noteq> []"
    with Cons.prems(1) [of "c # g1" g2]
    show "match_nodes ns False 0 (last_seen (Some c) g1) (g2 @ y) = None"
      by (simp add: last_seen_Cons [of c g1 prev])
  next
    from Cons.prems(2) show "free ns (last_seen (Some c) cs) y"
      by (simp add: last_seen_Cons [of c cs prev])
  qed
  with here show ?case
    by (simp add: free_Cons)
qed

section \<open>An unbounded substitution leaves no match behind\<close>

lemma sub_loop_free:
  assumes "\<And>adv k prev s r. match_nodes P adv k prev s = Some r \<Longrightarrow> k < r"
    and "\<And>pv pv' g s' len t'. g \<noteq> [] \<Longrightarrow> match_nodes P False 0 pv' s' = Some len \<Longrightarrow>
            match_nodes Q False 0 pv (g @ s') = None \<Longrightarrow> match_nodes Q False 0 pv (g @ R @ t') = None"
    and "\<And>t. dead Q R t"
    and "\<And>pv s. free Q pv s \<Longrightarrow> free Q (Some (last R)) s"
    and "R \<noteq> []"
    and "count = 0" and "adv = False" and "Q = P \<or> free Q prev s"
  shows "free Q prev (sub_loop P R count n adv prev s)"
  using assms
proof (induction P R count n adv prev s rule: sub_loop.induct)
  case (1 ns repl count n adv prev s)
  note nonempty = "1.prems"(1) and transfer = "1.prems"(2) and inside = "1.prems"(3)
    and after = "1.prems"(4) and R = "1.prems"(5)
  note [simp] = \<open>count = 0\<close> \<open>adv = False\<close>
  show ?case
  proof (cases "search_from ns False prev s")
    case None
    then have "sub_loop ns repl count n adv prev s = s"
      by (simp add: sub_loop_no_match)
    moreover from None "1.prems"(8) have "free Q prev s"
      by (auto simp: free_def)
    ultimately show ?thesis by simp
  next
    case (Some p)
    obtain b len where p: "p = (b, len)" by (cases p)
    with Some have s: "search_from ns False prev s = Some (b, len)" by simp
    from search_from_leftmost [OF s] have b: "b \<le> length s"
      and m: "match_nodes ns False 0 (last_seen prev (take b s)) (drop b s) = Some len"
      and gap: "\<And>g1 g2. take b s = g1 @ g2 \<Longrightarrow> g2 \<noteq> [] \<Longrightarrow>
                  match_nodes ns False 0 (last_seen prev g1) (g2 @ drop b s) = None"
      by blast+
    from nonempty [OF m] have len: "len \<noteq> 0"
      by simp
    define prev' where "prev' = last_seen prev (take (b + len) s)"
    define rec where "rec = sub_loop ns repl count (Suc n) (len = 0) prev' (drop (b + len) s)"
    have out: "sub_loop ns repl count n adv prev s = take b s @ repl @ rec"
      using s by (subst sub_loop.simps) (simp add: rec_def prev'_def)
    have start': "Q = ns \<or> free Q prev' (drop (b + len) s)"
    proof (cases "Q = ns")
      case False
      with "1.prems"(8) have "free Q prev (take (b + len) s @ drop (b + len) s)"
        by simp
      from free_split [OF this] show ?thesis
        by (simp add: prev'_def)
    qed simp
    have ih: "free Q prev' rec"
      unfolding rec_def prev'_def
    proof (rule "1.IH" [of "(b, len)" b len], goal_cases)
      case 1
      show ?case by simp
    next
      case 2
      show ?case using s by simp
    next
      case 3
      show ?case ..
    next
      case 4
      then show ?case by (rule nonempty)
    next
      case 5
      then show ?case by (rule transfer)
    next
      case 6
      show ?case by (rule inside)
    next
      case 7
      then show ?case by (rule after)
    next
      case 8
      show ?case by (rule R)
    next
      case 9
      show ?case by simp
    next
      case 10
      show ?case using len by simp
    next
      case 11
      show ?case using start' by (simp add: prev'_def)
    qed
    have "free Q (Some (last repl)) rec"
      using ih by (rule after)
    with R have "free Q (last_seen (last_seen prev (take b s)) repl) rec"
      by (cases repl) auto
    with inside [of rec] have mid: "free Q (last_seen prev (take b s)) (repl @ rec)"
      by (rule dead_free)
    have "free Q prev (take b s @ repl @ rec)"
    proof (rule gap_free [OF _ mid])
      fix g1 g2 assume g: "take b s = g1 @ g2" "g2 \<noteq> []"
      have "match_nodes Q False 0 (last_seen prev g1) (g2 @ drop b s) = None"
      proof (cases "Q = ns")
        case True
        with gap [OF g] show ?thesis by simp
      next
        case False
        with "1.prems"(8) have "free Q prev (take b s @ drop b s)"
          by simp
        from free_split [OF this] g show ?thesis
          by blast
      qed
      with g(2) m show "match_nodes Q False 0 (last_seen prev g1) (g2 @ repl @ rec) = None"
        by (rule transfer)
    qed
    with out show ?thesis by simp
  qed
qed

section \<open>The patterns of explicit_any and empty_object\<close>

lemmas pats = any1_def any2_def any3_def obj1_def obj2_def lits_def

lemma match_nodes_nonempty:
  "match_nodes ns adv k prev s = Some r \<Longrightarrow> \<exists>a. One a \<in> set ns \<Longrightarrow> k < r"
proof (induction ns adv k prev s arbitrary: r rule: match_nodes.induct)
  case (4 a ns adv k prev c cs)
  then have "match_nodes ns adv (Suc k) (Some c) cs = Some r"
    by (auto split: if_splits)
  from match_nodes_bounds [OF this] show ?case by simp
qed (auto split: if_splits option.splits)

lemma starts_One:
  "match_nodes (One (Lit a) # ns) adv k prev s = Some r \<Longrightarrow> \<exists>t. s = a # t"
  by (cases s) (auto split: if_splits)

lemma starts_Boundary_two:
  "match_nodes (Boundary # One (Lit a) # One (Lit b) # ns) adv k prev s = Some r \<Longrightarrow> \<exists>t. s = a # b # t"
proof -
  assume m: "match_nodes (Boundary # One (Lit a) # One (Lit b) # ns) adv k prev s = Some r"
  then obtain t where s: "s = a # t"
    by (cases s) (auto split: if_splits)
  with m obtain u where "t = b # u"
    by (cases t) (auto split: if_splits)
  with s show ?thesis by simp
qed

text \<open>A pattern that starts with a character does not look at what comes before.\<close>

lemma free_One_prev: "free (One a # ns) pv s \<Longrightarrow> free (One a # ns) pv' s"
  by (cases s) (auto simp: free_Nil free_Cons)

text \<open>Transfer, when the character that starts both the match and the replacement stops the pattern.\<close>

lemma transfer_stop:
  assumes "stops c Q" and "s' = c # t" and "r = c # u"
    and "match_nodes Q False 0 pv (g @ s') = None"
  shows "match_nodes Q False 0 pv (g @ r @ t') = None"
  using assms match_nodes_stop [of c Q False 0 pv g t "u @ t'"] by simp

text \<open>The same when the pattern starts with a character and the rest of it is stopped.\<close>

lemma transfer_stop_One:
  assumes "stops c Q" and "s' = c # t" and "r = c # u" and "g \<noteq> []"
    and "match_nodes (One a # Q) False 0 pv (g @ s') = None"
  shows "match_nodes (One a # Q) False 0 pv (g @ r @ t') = None"
proof -
  from assms(4) obtain y ys where g: "g = y # ys" by (cases g) auto
  show ?thesis
    using assms(2,3,5) match_nodes_stop [OF assms(1), of False "Suc 0" "Some y" ys t "u @ t'"]
    by (auto simp: g split: if_splits)
qed

text \<open>The same when the second character of match and replacement stops the pattern.\<close>

lemma transfer_stop_second:
  assumes "stops c Q" and "s' = b # c # t" and "r = b # c # u"
    and "match_nodes Q False 0 pv (g @ s') = None"
  shows "match_nodes Q False 0 pv (g @ r @ t') = None"
  using assms match_nodes_stop [of c Q False 0 pv "g @ [b]" t "u @ t'"] by simp


text \<open>Nothing matches inside the three replacements, whatever follows.\<close>

lemmas char_eval = is_space_def is_word_def

lemma dead_any:
  "dead any1 '': unknown'' t" "dead any1 ''<unknown>'' t" "dead any1 ''as unknown'' t"
  "dead any2 ''<unknown>'' t" "dead any2 ''as unknown'' t"
  "dead any3 ''as unknown'' t"
  by (simp_all add: pats char_eval)

lemma dead_obj:
  "dead obj1 '': unknown'' t" "dead obj1 ''<unknown>'' t" "dead obj2 ''<unknown>'' t"
  by (simp_all add: pats char_eval)

lemma nonempty_pats:
  "match_nodes any1 adv k prev s = Some r \<Longrightarrow> k < r"
  "match_nodes any2 adv k prev s = Some r \<Longrightarrow> k < r"
  "match_nodes any3 adv k prev s = Some r \<Longrightarrow> k < r"
  "match_nodes obj1 adv k prev s = Some r \<Longrightarrow> k < r"
  "match_nodes obj2 adv k prev s = Some r \<Longrightarrow> k < r"
  by (erule match_nodes_nonempty, simp add: pats, blast)+

lemma starts_pats:
  "match_nodes any1 adv k prev s = Some r \<Longrightarrow> \<exists>t. s = CHR '':'' # t"
  "match_nodes any2 adv k prev s = Some r \<Longrightarrow> \<exists>t. s = CHR ''<'' # t"
  "match_nodes any3 adv k prev s = Some r \<Longrightarrow> \<exists>t. s = CHR ''a'' # CHR ''s'' # t"
  "match_nodes obj1 adv k prev s = Some r \<Longrightarrow> \<exists>t. s = CHR '':'' # t"
  "match_nodes obj2 adv k prev s = Some r \<Longrightarrow> \<exists>t. s = CHR ''<'' # t"
  unfolding pats
  by (simp_all only: list.map append.simps starts_One starts_Boundary_two)


lemma free_any1_step1:
  "free any1 None (sub_all any1 '': unknown'' s)"
  unfolding sub_all_def
proof (rule sub_loop_free [where P = any1 and Q = any1 and R = "'': unknown''"], goal_cases)
  case (1 adv k prev s r)
  then show ?case by (rule nonempty_pats)
next
  case (2 pv pv' g s' len t')
    from starts_pats(1) [OF 2(2)] obtain t where s': "s' = CHR '':'' # t" by blast
    have st: "stops (CHR '':'') (tl any1)" by (simp add: stops_def pats char_eval)
    have q: "any1 = One (Lit (CHR '':'')) # tl any1" by (simp add: pats)
    from 2(3) have "match_nodes (One (Lit (CHR '':'')) # tl any1) False 0 pv (g @ s') = None"
      using q by simp
    from transfer_stop_One [OF st s' _ 2(1) this, of "'': unknown''" _ t']
    show ?case using q by simp
next
  case 3
  show ?case by (rule dead_any)
next
  case (4 pv s)
    from 4 show ?case unfolding pats list.map append.simps by (rule free_One_prev)
qed simp_all

lemma free_any1_step2:
  assumes h: "free any1 None s"
  shows "free any1 None (sub_all any2 ''<unknown>'' s)"
  unfolding sub_all_def
proof (rule sub_loop_free [where P = any2 and Q = any1 and R = "''<unknown>''"], goal_cases)
  case (1 adv k prev s r)
  then show ?case by (rule nonempty_pats)
next
  case (2 pv pv' g s' len t')
    from starts_pats(2) [OF 2(2)] obtain t where s': "s' = CHR ''<'' # t" by blast
    have st: "stops (CHR ''<'') any1" by (simp add: stops_def pats char_eval)
    from st s' _ 2(3) show ?case by (rule transfer_stop) simp
next
  case 3
  show ?case by (rule dead_any)
next
  case (4 pv s)
    from 4 show ?case unfolding pats list.map append.simps by (rule free_One_prev)
qed (simp_all add: h)

lemma free_any2_step2:
  "free any2 None (sub_all any2 ''<unknown>'' s)"
  unfolding sub_all_def
proof (rule sub_loop_free [where P = any2 and Q = any2 and R = "''<unknown>''"], goal_cases)
  case (1 adv k prev s r)
  then show ?case by (rule nonempty_pats)
next
  case (2 pv pv' g s' len t')
    from starts_pats(2) [OF 2(2)] obtain t where s': "s' = CHR ''<'' # t" by blast
    have st: "stops (CHR ''<'') (tl any2)" by (simp add: stops_def pats char_eval)
    have q: "any2 = One (Lit (CHR ''<'')) # tl any2" by (simp add: pats)
    from 2(3) have "match_nodes (One (Lit (CHR ''<'')) # tl any2) False 0 pv (g @ s') = None"
      using q by simp
    from transfer_stop_One [OF st s' _ 2(1) this, of "''<unknown>''" _ t']
    show ?case using q by simp
next
  case 3
  show ?case by (rule dead_any)
next
  case (4 pv s)
    from 4 show ?case unfolding pats list.map append.simps by (rule free_One_prev)
qed simp_all

lemma free_any1_step3:
  assumes h: "free any1 None s"
  shows "free any1 None (sub_all any3 ''as unknown'' s)"
  unfolding sub_all_def
proof (rule sub_loop_free [where P = any3 and Q = any1 and R = "''as unknown''"], goal_cases)
  case (1 adv k prev s r)
  then show ?case by (rule nonempty_pats)
next
  case (2 pv pv' g s' len t')
    from starts_pats(3) [OF 2(2)] obtain t where s': "s' = CHR ''a'' # CHR ''s'' # t" by blast
    have st: "stops (CHR ''s'') any1" by (simp add: stops_def pats char_eval)
    from st s' _ 2(3) show ?case by (rule transfer_stop_second) simp
next
  case 3
  show ?case by (rule dead_any)
next
  case (4 pv s)
    from 4 show ?case unfolding pats list.map append.simps by (rule free_One_prev)
qed (simp_all add: h)

lemma free_any2_step3:
  assumes h: "free any2 None s"
  shows "free any2 None (sub_all any3 ''as unknown'' s)"
  unfolding sub_all_def
proof (rule sub_loop_free [where P = any3 and Q = any2 and R = "''as unknown''"], goal_cases)
  case (1 adv k prev s r)
  then show ?case by (rule nonempty_pats)
next
  case (2 pv pv' g s' len t')
    from starts_pats(3) [OF 2(2)] obtain t where s': "s' = CHR ''a'' # CHR ''s'' # t" by blast
    have st: "stops (CHR ''s'') any2" by (simp add: stops_def pats char_eval)
    from st s' _ 2(3) show ?case by (rule transfer_stop_second) simp
next
  case 3
  show ?case by (rule dead_any)
next
  case (4 pv s)
    from 4 show ?case unfolding pats list.map append.simps by (rule free_One_prev)
qed (simp_all add: h)

lemma free_any3_step3:
  "free any3 None (sub_all any3 ''as unknown'' s)"
  unfolding sub_all_def
proof (rule sub_loop_free [where P = any3 and Q = any3 and R = "''as unknown''"], goal_cases)
  case (1 adv k prev s r)
  then show ?case by (rule nonempty_pats)
next
  case (2 pv pv' g s' len t')
    from starts_pats(3) [OF 2(2)] obtain t where s': "s' = CHR ''a'' # CHR ''s'' # t" by blast
    from 2(1) obtain y ys where g: "g = y # ys" by (cases g) auto
    have st: "stops (CHR ''s'') (Plus Space_Class # lits ''any'' @ [Boundary])"
      by (simp add: stops_def pats char_eval)
    show ?case
    proof (cases ys)
      case Nil
      then show ?thesis by (simp add: g pats)
    next
      case (Cons z zs)
      from match_nodes_stop [OF st, of False "Suc (Suc 0)" "Some z" "zs @ ''a''" t "'' unknown'' @ t'"]
      show ?thesis using 2(3) by (auto simp: g Cons s' pats split: if_splits)
    qed
next
  case 3
  show ?case by (rule dead_any)
next
  case (4 pv s)
    show ?case
    proof (cases s)
      case Nil
      then show ?thesis by (simp add: free_Nil pats)
    next
      case (Cons c cs)
      with 4 show ?thesis by (auto simp: free_Cons pats char_eval split: if_splits)
    qed
qed simp_all

lemma free_obj1_step1:
  "free obj1 None (sub_all obj1 '': unknown'' s)"
  unfolding sub_all_def
proof (rule sub_loop_free [where P = obj1 and Q = obj1 and R = "'': unknown''"], goal_cases)
  case (1 adv k prev s r)
  then show ?case by (rule nonempty_pats)
next
  case (2 pv pv' g s' len t')
    from starts_pats(4) [OF 2(2)] obtain t where s': "s' = CHR '':'' # t" by blast
    have st: "stops (CHR '':'') (tl obj1)" by (simp add: stops_def pats char_eval)
    have q: "obj1 = One (Lit (CHR '':'')) # tl obj1" by (simp add: pats)
    from 2(3) have "match_nodes (One (Lit (CHR '':'')) # tl obj1) False 0 pv (g @ s') = None"
      using q by simp
    from transfer_stop_One [OF st s' _ 2(1) this, of "'': unknown''" _ t']
    show ?case using q by simp
next
  case 3
  show ?case by (rule dead_obj)
next
  case (4 pv s)
    from 4 show ?case unfolding pats list.map append.simps by (rule free_One_prev)
qed simp_all

lemma free_obj1_step2:
  assumes h: "free obj1 None s"
  shows "free obj1 None (sub_all obj2 ''<unknown>'' s)"
  unfolding sub_all_def
proof (rule sub_loop_free [where P = obj2 and Q = obj1 and R = "''<unknown>''"], goal_cases)
  case (1 adv k prev s r)
  then show ?case by (rule nonempty_pats)
next
  case (2 pv pv' g s' len t')
    from starts_pats(5) [OF 2(2)] obtain t where s': "s' = CHR ''<'' # t" by blast
    have st: "stops (CHR ''<'') obj1" by (simp add: stops_def pats char_eval)
    from st s' _ 2(3) show ?case by (rule transfer_stop) simp
next
  case 3
  show ?case by (rule dead_obj)
next
  case (4 pv s)
    from 4 show ?case unfolding pats list.map append.simps by (rule free_One_prev)
qed (simp_all add: h)

lemma free_obj2_step2:
  "free obj2 None (sub_all obj2 ''<unknown>'' s)"
  unfolding sub_all_def
proof (rule sub_loop_free [where P = obj2 and Q = obj2 and R = "''<unknown>''"], goal_cases)
  case (1 adv k prev s r)
  then show ?case by (rule nonempty_pats)
next
  case (2 pv pv' g s' len t')
    from starts_pats(5) [OF 2(2)] obtain t where s': "s' = CHR ''<'' # t" by blast
    have st: "stops (CHR ''<'') (tl obj2)" by (simp add: stops_def pats char_eval)
    have q: "obj2 = One (Lit (CHR ''<'')) # tl obj2" by (simp add: pats)
    from 2(3) have "match_nodes (One (Lit (CHR ''<'')) # tl obj2) False 0 pv (g @ s') = None"
      using q by simp
    from transfer_stop_One [OF st s' _ 2(1) this, of "''<unknown>''" _ t']
    show ?case using q by simp
next
  case 3
  show ?case by (rule dead_obj)
next
  case (4 pv s)
    from 4 show ?case unfolding pats list.map append.simps by (rule free_One_prev)
qed simp_all

section \<open>A second application of explicit_any and empty_object\<close>

lemma sub_all_free_id: "free ns None s \<Longrightarrow> sub_all ns r s = s"
  by (simp add: sub_all_def free_def sub_loop_no_match)

lemma any_line_steps:
  "any_line line = Inr (sub_all any3 ''as unknown'' (sub_all any2 ''<unknown>'' (sub_all any1 '': unknown'' line)))"
  unfolding any1_def any2_def any3_def by (rule any_line_all)

lemma object_line_steps:
  "object_line line = Inr (sub_all obj2 ''<unknown>'' (sub_all obj1 '': unknown'' line))"
  unfolding object_line_def re_sub_fixed sub_all_def obj1_def obj2_def by simp

lemma any_line_fixed:
  assumes "any_line line = Inr line'"
  shows "any_line line' = Inr line'"
proof -
  define l1 where "l1 = sub_all any1 '': unknown'' line"
  define l2 where "l2 = sub_all any2 ''<unknown>'' l1"
  from assms have l': "line' = sub_all any3 ''as unknown'' l2"
    by (simp add: any_line_steps l1_def l2_def)
  have "free any1 None l1"
    unfolding l1_def by (rule free_any1_step1)
  then have "free any1 None l2"
    unfolding l2_def by (rule free_any1_step2)
  then have f1: "free any1 None line'"
    unfolding l' by (rule free_any1_step3)
  have "free any2 None l2"
    unfolding l2_def by (rule free_any2_step2)
  then have f2: "free any2 None line'"
    unfolding l' by (rule free_any2_step3)
  have f3: "free any3 None line'"
    unfolding l' by (rule free_any3_step3)
  show ?thesis
    by (simp add: any_line_steps sub_all_free_id f1 f2 f3)
qed

lemma object_line_fixed:
  assumes "object_line line = Inr line'"
  shows "object_line line' = Inr line'"
proof -
  define l1 where "l1 = sub_all obj1 '': unknown'' line"
  from assms have l': "line' = sub_all obj2 ''<unknown>'' l1"
    by (simp add: object_line_steps l1_def)
  have "free obj1 None l1"
    unfolding l1_def by (rule free_obj1_step1)
  then have f1: "free obj1 None line'"
    unfolding l' by (rule free_obj1_step2)
  have f2: "free obj2 None line'"
    unfolding l' by (rule free_obj2_step2)
  show ?thesis
    by (simp add: object_line_steps sub_all_free_id f1 f2)
qed

lemma on_line_twice:
  assumes fixed: "\<And>l l'. f l = Inr l' \<Longrightarrow> f l' = Inr l'"
    and clean: "\<And>l l'. nl \<notin> set l \<Longrightarrow> f l = Inr l' \<Longrightarrow> nl \<notin> set l'"
    and out: "on_line f content line_num = Inr out"
  shows "on_line f out line_num = Inr out"
proof (cases "0 \<le> line_num - 1 \<and> line_num - 1 < int (length (split_nl content))")
  case False
  with out have "out = content"
    by (auto simp: on_line_def split: if_splits)
  with out show ?thesis by simp
next
  case True
  define i where "i = nat (line_num - 1)"
  have i: "i < length (split_nl content)"
    using True unfolding i_def by linarith
  from out True obtain l' where l': "f (split_nl content ! i) = Inr l'"
    and o: "out = join_nl ((split_nl content)[i := l'])"
    by (auto simp: on_line_def i_def split: sum.splits)
  have "nl \<notin> set (split_nl content ! i)"
    using i split_nl_lines nth_mem by blast
  then have "nl \<notin> set l'"
    using clean l' by blast
  then have "\<forall>l\<in>set ((split_nl content)[i := l']). nl \<notin> set l"
    using split_nl_lines [of _ content] by (auto dest!: set_update_subset_insert [THEN subsetD])
  moreover have "(split_nl content)[i := l'] \<noteq> []"
    using split_nl_nonempty [of content] by simp
  ultimately have eq: "split_nl out = (split_nl content)[i := l']"
    unfolding o by (rule split_join [rotated])
  from fixed [OF l'] have l'': "f l' = Inr l'" .
  have t: "split_nl out ! nat (line_num - 1) = l'"
    using i by (simp add: eq i_def)
  have r: "0 \<le> line_num - 1 \<and> line_num - 1 < int (length (split_nl out))"
    using True by (simp add: eq)
  have "on_line f out line_num = Inr (join_nl ((split_nl out)[nat (line_num - 1) := l']))"
    unfolding on_line_def using r t l'' by simp
  also have "\<dots> = Inr out"
    unfolding eq i_def [symmetric] by (simp add: o)
  finally show ?thesis .
qed

lemma fix_explicit_any_twice:
  "\<exists>out. fix_explicit_any content line_num = Inr out \<and> fix_explicit_any out line_num = Inr out"
proof -
  obtain out where out: "on_line any_line content line_num = Inr out"
    using on_line_returns [of any_line content line_num] any_line_returns by blast
  from any_line_fixed any_line_newline_free out have "on_line any_line out line_num = Inr out"
    by (rule on_line_twice)
  with out show ?thesis
    by (auto simp: fix_explicit_any_on_line)
qed

lemma fix_empty_object_type_twice:
  "\<exists>out. fix_empty_object_type content line_num = Inr out \<and> fix_empty_object_type out line_num = Inr out"
proof -
  obtain out where out: "on_line object_line content line_num = Inr out"
    using on_line_returns [of object_line content line_num] object_line_returns by blast
  from object_line_fixed object_line_newline_free out have "on_line object_line out line_num = Inr out"
    by (rule on_line_twice)
  with out show ?thesis
    by (auto simp: fix_empty_object_type_on_line)
qed

lemma request_example:
  "fix_unused_request_param ''export async function GET(request: Request) {'' 1
     = Inr ''export async function GET(_request: Request) {''"
  "fix_unused_request_param ''export async function GET(_request: Request) {'' 1
     = Inr ''export async function GET(_request: Request) {''"
  by code_simp+

section \<open>The claims\<close>

text \<open>
  C8. For every document and every line number that is out of bounds (zero, negative, or
  greater than the number of lines), each of the five rule functions returns the document
  itself, unchanged, and does not raise; this holds for every detail, since the patterns
  are only built inside the bounds test.
\<close>

theorem out_of_bounds_unchanged:
  assumes "line_num \<le> 0 \<or> int (length (split_nl content)) < line_num"
  shows "fix_unused_request_param content line_num = Inr content
         \<and> fix_unused_var content line_num detail = Inr content
         \<and> fix_explicit_any content line_num = Inr content
         \<and> fix_empty_object_type content line_num = Inr content
         \<and> remove_unused_import content line_num detail = Inr content"
  using assms
  by (simp add: fix_unused_request_param_on_line fix_unused_var_on_line fix_explicit_any_on_line
        fix_empty_object_type_on_line remove_unused_import_on_line on_line_out_of_range)

theorem out_of_bounds_unchanged_witness:
  "fix_unused_request_param ''a(request)'' 0 = Inr ''a(request)''
   \<and> fix_unused_var ''a(request)'' (- 3) ''*'' = Inr ''a(request)''
   \<and> fix_explicit_any ''x: any'' 2 = Inr ''x: any''
   \<and> fix_empty_object_type ''x: {}'' 2 = Inr ''x: {}''
   \<and> remove_unused_import ''import { Foo } from y'' 5 ''Foo'' = Inr ''import { Foo } from y''"
  using out_of_bounds_unchanged [of 0 "''a(request)''" "''x''"]
        out_of_bounds_unchanged [of "- 3" "''a(request)''" "''*''"]
        out_of_bounds_unchanged [of 2 "''x: any''" "''x''"]
        out_of_bounds_unchanged [of 2 "''x: {}''" "''x''"]
        out_of_bounds_unchanged [of 5 "''import { Foo } from y''" "''Foo''"]
  by (simp add: nl_def)

text \<open>
  C9. The result of the unused_param category does not depend on the detail: two calls that
  differ only in the detail give the same result, because the dispatch passes only the
  content and the line number to \<open>fix_unused_request_param\<close>.
\<close>

theorem unused_param_ignores_detail:
  "apply_fix ''unused_param'' detail1 content line_num = apply_fix ''unused_param'' detail2 content line_num"
  by (simp add: apply_fix_def)







text \<open>
  C3, as amended. For every content, every line number and every detail without pattern
  syntax (none of the special characters, no backslash), each of the five rule functions
  returns normally; and when the line number is within bounds and no pattern of a rule is
  found in the target line, the rule returns the content as it is.
\<close>

theorem rules_return_normally:
  assumes "no_metachar detail"
  shows "(\<exists>r. fix_unused_request_param content line_num = Inr r)
       \<and> (\<exists>r. fix_unused_var content line_num detail = Inr r)
       \<and> (\<exists>r. fix_explicit_any content line_num = Inr r)
       \<and> (\<exists>r. fix_empty_object_type content line_num = Inr r)
       \<and> (\<exists>r. remove_unused_import content line_num detail = Inr r)
       \<and> (\<forall>line. target content line_num = Some line \<longrightarrow>
            (no_match (map fst request_patterns) line \<longrightarrow>
               fix_unused_request_param content line_num = Inr content)
          \<and> (no_match (map fst (var_patterns detail)) line \<longrightarrow>
               fix_unused_var content line_num detail = Inr content)
          \<and> (no_match any_patterns line \<longrightarrow> fix_explicit_any content line_num = Inr content)
          \<and> (no_match object_patterns line \<longrightarrow> fix_empty_object_type content line_num = Inr content)
          \<and> (re_match (import_head detail) line = Inr False \<and> no_match (import_patterns detail) line \<longrightarrow>
               remove_unused_import content line_num detail = Inr content))"
proof -
  have "\<exists>r. fix_unused_request_param content line_num = Inr r"
    unfolding fix_unused_request_param_on_line by (rule on_line_returns) (rule request_line_returns)
  moreover have "\<exists>r. fix_unused_var content line_num detail = Inr r"
    unfolding fix_unused_var_on_line by (rule on_line_returns) (rule var_line_returns [OF assms])
  moreover have "\<exists>r. fix_explicit_any content line_num = Inr r"
    unfolding fix_explicit_any_on_line by (rule on_line_returns) (rule any_line_returns)
  moreover have "\<exists>r. fix_empty_object_type content line_num = Inr r"
    unfolding fix_empty_object_type_on_line by (rule on_line_returns) (rule object_line_returns)
  moreover have "\<exists>r. remove_unused_import content line_num detail = Inr r"
    unfolding remove_unused_import_on_line by (rule on_line_returns) (rule import_line_returns [OF assms])
  moreover have "\<forall>line. target content line_num = Some line \<longrightarrow>
            (no_match (map fst request_patterns) line \<longrightarrow>
               fix_unused_request_param content line_num = Inr content)
          \<and> (no_match (map fst (var_patterns detail)) line \<longrightarrow>
               fix_unused_var content line_num detail = Inr content)
          \<and> (no_match any_patterns line \<longrightarrow> fix_explicit_any content line_num = Inr content)
          \<and> (no_match object_patterns line \<longrightarrow> fix_empty_object_type content line_num = Inr content)
          \<and> (re_match (import_head detail) line = Inr False \<and> no_match (import_patterns detail) line \<longrightarrow>
               remove_unused_import content line_num detail = Inr content)"
    by (simp add: fix_unused_request_param_on_line fix_unused_var_on_line
        fix_explicit_any_on_line fix_empty_object_type_on_line remove_unused_import_on_line
        on_line_same request_line_settled var_line_settled any_line_settled object_line_settled
        import_line_settled)
  ultimately show ?thesis by blast
qed

text \<open>
  The theorem at a line in which no rule finds anything: all five rules return it unchanged.
\<close>

theorem rules_return_normally_witness:
  "no_metachar ''data''
   \<and> target ''let y = 1'' 1 = Some ''let y = 1''
   \<and> no_match (map fst request_patterns) ''let y = 1''
   \<and> no_match (map fst (var_patterns ''data'')) ''let y = 1''
   \<and> no_match any_patterns ''let y = 1''
   \<and> no_match object_patterns ''let y = 1''
   \<and> re_match (import_head ''data'') ''let y = 1'' = Inr False
   \<and> no_match (import_patterns ''data'') ''let y = 1''
   \<and> fix_unused_request_param ''let y = 1'' 1 = Inr ''let y = 1''
   \<and> fix_unused_var ''let y = 1'' 1 ''data'' = Inr ''let y = 1''
   \<and> fix_explicit_any ''let y = 1'' 1 = Inr ''let y = 1''
   \<and> fix_empty_object_type ''let y = 1'' 1 = Inr ''let y = 1''
   \<and> remove_unused_import ''let y = 1'' 1 ''data'' = Inr ''let y = 1''"
proof -
  have h0: "no_metachar ''data''"
    by (simp add: no_metachar_def bs_def)
  have h1: "target ''let y = 1'' 1 = Some ''let y = 1''"
    by code_simp
  have h2: "no_match (map fst request_patterns) ''let y = 1''"
    by code_simp
  have h3: "no_match (map fst (var_patterns ''data'')) ''let y = 1''"
    by code_simp
  have h4: "no_match any_patterns ''let y = 1''"
    by code_simp
  have h5: "no_match object_patterns ''let y = 1''"
    by code_simp
  have h6: "re_match (import_head ''data'') ''let y = 1'' = Inr False"
    by code_simp
  have h7: "no_match (import_patterns ''data'') ''let y = 1''"
    by code_simp
  from rules_return_normally [OF h0, of "''let y = 1''" 1] h1
  have "(no_match (map fst request_patterns) ''let y = 1'' \<longrightarrow>
               fix_unused_request_param ''let y = 1'' 1 = Inr ''let y = 1'')
          \<and> (no_match (map fst (var_patterns ''data'')) ''let y = 1'' \<longrightarrow>
               fix_unused_var ''let y = 1'' 1 ''data'' = Inr ''let y = 1'')
          \<and> (no_match any_patterns ''let y = 1'' \<longrightarrow> fix_explicit_any ''let y = 1'' 1 = Inr ''let y = 1'')
          \<and> (no_match object_patterns ''let y = 1'' \<longrightarrow> fix_empty_object_type ''let y = 1'' 1 = Inr ''let y = 1'')
          \<and> (re_match (import_head ''data'') ''let y = 1'' = Inr False \<and> no_match (import_patterns ''data'') ''let y = 1'' \<longrightarrow>
               remove_unused_import ''let y = 1'' 1 ''data'' = Inr ''let y = 1'')"
    by simp
  with h0 h1 h2 h3 h4 h5 h6 h7 show ?thesis
    by simp
qed

text \<open>
  C3 as stated fails: a detail with pattern syntax is compiled as part of the pattern. With
  the detail \<^verbatim>\<open>*\<close> the first unused_var pattern is \<^verbatim>\<open>\bconst\s+*\b\<close> and the first
  unused_import pattern is \<^verbatim>\<open>import\s+\{\s**\s*\}\<close>; \<^verbatim>\<open>re\<close> rejects both ("multiple
  repeat") and the rule raises.
\<close>

theorem rules_return_normally_counterexample:
  "fix_unused_var ''const x = 1'' 1 ''*'' = Inl ReError
   \<and> remove_unused_import ''import { a, b } from 'm';'' 1 ''*'' = Inl ReError"
  by code_simp

text \<open>
  C4, as amended. For the categories explicit_any and empty_object, for every detail,
  every document and every line number: the rule returns, and applying it a second time
  to its result yields no further change. For unused_param this holds on the example of
  the specification (once \<^verbatim>\<open>_request\<close> is produced, no unprefixed \<^verbatim>\<open>request\<close> is
  left to match); in general unused_param, unused_var and unused_import are not idempotent.
\<close>

theorem second_application_no_change:
  "(\<exists>out. apply_fix ''explicit_any'' detail content line_num = Inr out
          \<and> apply_fix ''explicit_any'' detail out line_num = Inr out)
   \<and> (\<exists>out. apply_fix ''empty_object'' detail content line_num = Inr out
          \<and> apply_fix ''empty_object'' detail out line_num = Inr out)
   \<and> apply_fix ''unused_param'' detail ''export async function GET(request: Request) {'' 1
        = Inr ''export async function GET(_request: Request) {''
   \<and> apply_fix ''unused_param'' detail ''export async function GET(_request: Request) {'' 1
        = Inr ''export async function GET(_request: Request) {''"
  using fix_explicit_any_twice [of content line_num] fix_empty_object_type_twice [of content line_num]
  by (simp add: apply_fix_def request_example)

text \<open>
  C4 as stated fails for the three other categories. unused_param rewrites the matches of
  the first pattern that is found, and a later pattern may still be found in the result
  (\<^verbatim>\<open>request:\<close>, then \<^verbatim>\<open>request)\<close>); unused_var rewrites one occurrence at a time;
  unused_import removes the detail from inside \<^verbatim>\<open>FFoooo\<close>, which leaves \<^verbatim>\<open>Foo\<close>
  for the second application to blank.
\<close>

theorem second_application_counterexample:
  "apply_fix ''unused_param'' ''request'' ''f(request: R) { g(request) }'' 1
     = Inr ''f(_request: R) { g(request) }''
   \<and> apply_fix ''unused_param'' ''request'' ''f(_request: R) { g(request) }'' 1
     = Inr ''f(_request: R) { g(_request) }''
   \<and> apply_fix ''unused_var'' ''data'' ''f(data: A, data: B)'' 1 = Inr ''f(_data: A, data: B)''
   \<and> apply_fix ''unused_var'' ''data'' ''f(_data: A, data: B)'' 1 = Inr ''f(_data: A, _data: B)''
   \<and> apply_fix ''unused_import'' ''Foo'' ''import { FFoooo } from 'x';'' 1 = Inr ''import { Foo } from 'x';''
   \<and> apply_fix ''unused_import'' ''Foo'' ''import { Foo } from 'x';'' 1 = Inr ''''"
  by code_simp

text \<open>
  C1. The claim asks, for unused_param and unused_var alike, that the replacement of the
  first pattern found is applied once, to the leftmost match only. \<open>fix_unused_var\<close>
  does so (it passes \<^verbatim>\<open>count=1\<close>); \<open>fix_unused_request_param\<close> calls \<^verbatim>\<open>re.sub\<close>
  without a count and rewrites every match of that pattern. On a line with two matches of
  the first pattern the two rules differ: unused_param prefixes both, unused_var only the
  leftmost.
\<close>

theorem unused_param_rewrites_every_match:
  "fix_unused_request_param ''function f(request: Request, o: {request: string}) {'' 1
     = Inr ''function f(_request: Request, o: {_request: string}) {''
   \<and> fix_unused_var ''function f(data: Request, o: {data: string}) {'' 1 ''data''
     = Inr ''function f(_data: Request, o: {data: string}) {''"
  by code_simp

text \<open>
  C5. With detail \<^verbatim>\<open>Foo\<close>, whatever the document around the target line: the target
  line \<^verbatim>\<open>import { Foo } from 'x';\<close> becomes the empty line (blanked, the line
  stays), and the target line \<^verbatim>\<open>import { Foo, Bar } from 'x';\<close> becomes
  \<^verbatim>\<open>import { Bar } from 'x';\<close>, with no comma left behind.
\<close>

theorem unused_import_examples:
  "(target content line_num = Some ''import { Foo } from 'x';'' \<longrightarrow>
      remove_unused_import content line_num ''Foo''
        = Inr (join_nl ((split_nl content)[nat (line_num - 1) := ''''])))
   \<and> (target content line_num = Some ''import { Foo, Bar } from 'x';'' \<longrightarrow>
      remove_unused_import content line_num ''Foo''
        = Inr (join_nl ((split_nl content)[nat (line_num - 1) := ''import { Bar } from 'x';''])))"
  by (simp add: remove_unused_import_on_line on_line_target import_line_single import_line_pair)

text \<open>The theorem at a one-line document and at the middle line of three.\<close>

theorem unused_import_examples_witness:
  "target ''import { Foo } from 'x';'' 1 = Some ''import { Foo } from 'x';''
   \<and> remove_unused_import ''import { Foo } from 'x';'' 1 ''Foo'' = Inr []
   \<and> target ''a\<newline>import { Foo, Bar } from 'x';\<newline>b'' 2 = Some ''import { Foo, Bar } from 'x';''
   \<and> remove_unused_import ''a\<newline>import { Foo, Bar } from 'x';\<newline>b'' 2 ''Foo''
        = Inr ''a\<newline>import { Bar } from 'x';\<newline>b''"
proof -
  have h1: "target ''import { Foo } from 'x';'' 1 = Some ''import { Foo } from 'x';''"
    by code_simp
  have h2: "target ''a\<newline>import { Foo, Bar } from 'x';\<newline>b'' 2 = Some ''import { Foo, Bar } from 'x';''"
    by code_simp
  have j1: "join_nl ((split_nl ''import { Foo } from 'x';'')[nat (1 - 1) := '''']) = []"
    by code_simp
  have j2: "join_nl ((split_nl ''a\<newline>import { Foo, Bar } from 'x';\<newline>b'')[nat (2 - 1) := ''import { Bar } from 'x';''])
              = ''a\<newline>import { Bar } from 'x';\<newline>b''"
    by code_simp
  from unused_import_examples [of "''import { Foo } from 'x';''" 1]
       unused_import_examples [of "''a\<newline>import { Foo, Bar } from 'x';\<newline>b''" 2]
       h1 h2 j1 j2
  show ?thesis by simp
qed

text \<open>
  C6. \<open>fix_explicit_any\<close> applies its three substitutions one after the other to the
  target line, each without a count, so at every occurrence, whether or not an earlier one
  matched: the new line is the result of the three unbounded substitutions in sequence.
  The target line \<^verbatim>\<open>function f(x: any): any {\<close> becomes
  \<^verbatim>\<open>function f(x: unknown): unknown {\<close>, and a line that holds each of the three forms
  twice has all six occurrences rewritten.
\<close>

theorem explicit_any_every_occurrence:
  "(target content line_num = Some line \<longrightarrow>
      fix_explicit_any content line_num
        = Inr (join_nl ((split_nl content)[nat (line_num - 1) :=
            sub_all (Boundary # lits ''as'' @ Plus Space_Class # lits ''any'' @ [Boundary]) ''as unknown''
              (sub_all (lits ''<any>'') ''<unknown>''
                (sub_all (One (Lit (CHR '':'')) # Star Space_Class # lits ''any'' @ [Boundary])
                   '': unknown'' line))])))
   \<and> (target content line_num = Some ''function f(x: any): any {'' \<longrightarrow>
      fix_explicit_any content line_num
        = Inr (join_nl ((split_nl content)[nat (line_num - 1) := ''function f(x: unknown): unknown {''])))
   \<and> (target content line_num = Some ''let a: any = <any>b as any, c:any = <any>d as  any;'' \<longrightarrow>
      fix_explicit_any content line_num
        = Inr (join_nl ((split_nl content)[nat (line_num - 1) :=
                 ''let a: unknown = <unknown>b as unknown, c: unknown = <unknown>d as unknown;''])))"
proof (intro conjI impI)
  assume "target content line_num = Some line"
  then show "fix_explicit_any content line_num
        = Inr (join_nl ((split_nl content)[nat (line_num - 1) :=
            sub_all (Boundary # lits ''as'' @ Plus Space_Class # lits ''any'' @ [Boundary]) ''as unknown''
              (sub_all (lits ''<any>'') ''<unknown>''
                (sub_all (One (Lit (CHR '':'')) # Star Space_Class # lits ''any'' @ [Boundary])
                   '': unknown'' line))]))"
    unfolding fix_explicit_any_on_line by (rule on_line_target) (rule any_line_all)
next
  assume "target content line_num = Some ''function f(x: any): any {''"
  then show "fix_explicit_any content line_num
        = Inr (join_nl ((split_nl content)[nat (line_num - 1) := ''function f(x: unknown): unknown {'']))"
    unfolding fix_explicit_any_on_line by (rule on_line_target) (rule any_line_twice)
next
  assume "target content line_num = Some ''let a: any = <any>b as any, c:any = <any>d as  any;''"
  then show "fix_explicit_any content line_num
        = Inr (join_nl ((split_nl content)[nat (line_num - 1) :=
                 ''let a: unknown = <unknown>b as unknown, c: unknown = <unknown>d as unknown;'']))"
    unfolding fix_explicit_any_on_line by (rule on_line_target) (rule any_line_all_three)
qed

text \<open>The theorem at the two lines, each as a one-line document.\<close>

theorem explicit_any_every_occurrence_witness:
  "target ''function f(x: any): any {'' 1 = Some ''function f(x: any): any {''
   \<and> fix_explicit_any ''function f(x: any): any {'' 1 = Inr ''function f(x: unknown): unknown {''
   \<and> target ''let a: any = <any>b as any, c:any = <any>d as  any;'' 1
       = Some ''let a: any = <any>b as any, c:any = <any>d as  any;''
   \<and> fix_explicit_any ''let a: any = <any>b as any, c:any = <any>d as  any;'' 1
       = Inr ''let a: unknown = <unknown>b as unknown, c: unknown = <unknown>d as unknown;''"
proof -
  have h1: "target ''function f(x: any): any {'' 1 = Some ''function f(x: any): any {''"
    by code_simp
  have h2: "target ''let a: any = <any>b as any, c:any = <any>d as  any;'' 1
              = Some ''let a: any = <any>b as any, c:any = <any>d as  any;''"
    by code_simp
  have j1: "join_nl ((split_nl ''function f(x: any): any {'')[nat (1 - 1) := ''function f(x: unknown): unknown {''])
              = ''function f(x: unknown): unknown {''"
    by code_simp
  have j2: "join_nl ((split_nl ''let a: any = <any>b as any, c:any = <any>d as  any;'')[nat (1 - 1) :=
                 ''let a: unknown = <unknown>b as unknown, c: unknown = <unknown>d as unknown;''])
              = ''let a: unknown = <unknown>b as unknown, c: unknown = <unknown>d as unknown;''"
    by code_simp
  note t1 = explicit_any_every_occurrence [of "''function f(x: any): any {''" 1 "''function f(x: any): any {''"]
  note t2 = explicit_any_every_occurrence [of "''let a: any = <any>b as any, c:any = <any>d as  any;''" 1
         "''let a: any = <any>b as any, c:any = <any>d as  any;''"]
  have a: "fix_explicit_any ''function f(x: any): any {'' 1 = Inr ''function f(x: unknown): unknown {''"
    using t1 [THEN conjunct2, THEN conjunct1, rule_format, OF h1] unfolding j1 .
  have b: "fix_explicit_any ''let a: any = <any>b as any, c:any = <any>d as  any;'' 1
             = Inr ''let a: unknown = <unknown>b as unknown, c: unknown = <unknown>d as unknown;''"
    using t2 [THEN conjunct2, THEN conjunct2, rule_format, OF h2] unfolding j2 .
  show ?thesis
    using h1 a h2 b by (intro conjI)
qed

text \<open>
  C10. In the second branch of \<open>remove_unused_import\<close> the detail is matched wherever
  its text occurs, also inside a longer identifier, and every occurrence is removed: with
  detail \<^verbatim>\<open>Foo\<close> the target line \<^verbatim>\<open>import { Food, Foo } from 'x';\<close> becomes
  \<^verbatim>\<open>import {d} from 'x';\<close>.
\<close>

theorem unused_import_substring:
  "target content line_num = Some ''import { Food, Foo } from 'x';'' \<Longrightarrow>
   remove_unused_import content line_num ''Foo''
     = Inr (join_nl ((split_nl content)[nat (line_num - 1) := ''import {d} from 'x';'']))"
  by (simp add: remove_unused_import_on_line on_line_target import_line_substring)

text \<open>The theorem at the one-line document.\<close>

theorem unused_import_substring_witness:
  "target ''import { Food, Foo } from 'x';'' 1 = Some ''import { Food, Foo } from 'x';''
   \<and> remove_unused_import ''import { Food, Foo } from 'x';'' 1 ''Foo'' = Inr ''import {d} from 'x';''"
proof -
  have h: "target ''import { Food, Foo } from 'x';'' 1 = Some ''import { Food, Foo } from 'x';''"
    by code_simp
  have j: "join_nl ((split_nl ''import { Food, Foo } from 'x';'')[nat (1 - 1) := ''import {d} from 'x';''])
             = ''import {d} from 'x';''"
    by code_simp
  from unused_import_substring [OF h] h j show ?thesis by simp
qed

end
